theory Spec2Isabelle
  imports Main "HOL-Library.Word"
begin

unbundle bit_operations_syntax

section \<open>Errors and control flow\<close>

text \<open>
  The exceptions of \<^verbatim>\<open>integer.hpp\<close>: the string literal thrown by the bit accessors
  (\<open>IndexOutOfRange\<close>), \<^verbatim>\<open>integer_byte_index_out_of_bounds\<close> (\<open>ByteIndexOutOfRange\<close>),
  \<^verbatim>\<open>integer_divide_by_zero\<close> (\<open>DivideByZero\<close>) and the \<^verbatim>\<open>std::out_of_range\<close> of
  \<^verbatim>\<open>std::map::at\<close> (\<open>KeyNotFound\<close>). A function that can throw returns \<open>error + 'a\<close>.
\<close>

datatype error = IndexOutOfRange | ByteIndexOutOfRange | DivideByZero | KeyNotFound

definition bindE :: "error + 'a \<Rightarrow> ('a \<Rightarrow> error + 'b) \<Rightarrow> error + 'b" where
  "bindE m f = (case m of Inl e \<Rightarrow> Inl e | Inr x \<Rightarrow> f x)"

text \<open>\<^verbatim>\<open>for (i = lo; i < hi; ++i) body\<close>, the body threading a state and possibly throwing.\<close>

function for_up :: "nat \<Rightarrow> nat \<Rightarrow> (nat \<Rightarrow> 's \<Rightarrow> error + 's) \<Rightarrow> 's \<Rightarrow> error + 's" where
  "for_up i hi body s =
     (if i < hi then bindE (body i s) (for_up (Suc i) hi body) else Inr s)"
  by pat_completeness auto
termination
  by (relation "measure (\<lambda>(i, hi, body, s). hi - i)") auto

declare for_up.simps [simp del]

text \<open>
  \<^verbatim>\<open>for (int i = hi - 1; i >= lo; --i) body\<close>: the first argument counts the indices
  still to visit, so the index of the current iteration is \<open>lo + k\<close> for \<open>Suc k\<close>.
\<close>

fun for_down :: "nat \<Rightarrow> nat \<Rightarrow> (nat \<Rightarrow> 's \<Rightarrow> error + 's) \<Rightarrow> 's \<Rightarrow> error + 's" where
  "for_down 0 lo body s = Inr s"
| "for_down (Suc k) lo body s = bindE (body (lo + k) s) (for_down k lo body)"

section \<open>Bit storage of \<^verbatim>\<open>integer<nbits>\<close>\<close>

text \<open>
  The template parameter \<^verbatim>\<open>nbits\<close> is the first argument of every operation; the private
  array \<^verbatim>\<open>uint8_t b[nrBytes]\<close> is a list of bytes, least significant first. A value of
  the type has exactly \<open>nrBytes nbits\<close> bytes (\<open>wf\<close>); loop counters and indices are
  natural numbers, which is what the \<^verbatim>\<open>unsigned\<close> and \<^verbatim>\<open>int\<close> counters of the source hold
  for every width below \<open>2 ^ 31\<close>.
\<close>

type_synonym u8 = "8 word"

definition nrBytes :: "nat \<Rightarrow> nat" where
  "nrBytes nbits = 1 + (nbits - 1) div 8"

definition MS_BYTE :: "nat \<Rightarrow> nat" where
  "MS_BYTE nbits = nrBytes nbits - 1"

definition MS_BYTE_MASK :: "nat \<Rightarrow> u8" where
  "MS_BYTE_MASK nbits = drop_bit (nrBytes nbits * 8 - nbits) 0xFF"

definition wf :: "nat \<Rightarrow> u8 list \<Rightarrow> bool" where
  "wf nbits b \<longleftrightarrow> 0 < nbits \<and> length b = nrBytes nbits"

text \<open>Invariant I1: every storage bit at a position \<open>\<ge> nbits\<close> is zero.\<close>

definition I1 :: "nat \<Rightarrow> u8 list \<Rightarrow> bool" where
  "I1 nbits b \<longleftrightarrow>
     filter (\<lambda>i. bit (b ! (i div 8)) (i mod 8)) [nbits ..< 8 * length b] = []"

text \<open>The statement \<^verbatim>\<open>b[MS_BYTE] = MS_BYTE_MASK & b[MS_BYTE]\<close> that closes most mutators.\<close>

definition mask_top :: "nat \<Rightarrow> u8 list \<Rightarrow> u8 list" where
  "mask_top nbits b = b[MS_BYTE nbits := MS_BYTE_MASK nbits AND b ! MS_BYTE nbits]"

definition clear :: "nat \<Rightarrow> u8 list" where
  "clear nbits = replicate (nrBytes nbits) 0"

definition setzero :: "nat \<Rightarrow> u8 list" where
  "setzero nbits = clear nbits"

definition set_i :: "nat \<Rightarrow> u8 list \<Rightarrow> nat \<Rightarrow> error + u8 list" where
  "set_i nbits b i =
     (if i < nbits then
        (let byte = b ! (i div 8); mask = push_bit (i mod 8) (1 :: u8)
         in Inr (b[i div 8 := byte OR mask]))
      else Inl IndexOutOfRange)"

definition reset_i :: "nat \<Rightarrow> u8 list \<Rightarrow> nat \<Rightarrow> error + u8 list" where
  "reset_i nbits b i =
     (if i < nbits then
        (let byte = b ! (i div 8); mask = NOT (push_bit (i mod 8) (1 :: u8))
         in Inr (b[i div 8 := byte AND mask]))
      else Inl IndexOutOfRange)"

definition set_iv :: "nat \<Rightarrow> u8 list \<Rightarrow> nat \<Rightarrow> bool \<Rightarrow> error + u8 list" where
  "set_iv nbits b i v =
     (if i < nbits then
        (let byte = b ! (i div 8); null = NOT (push_bit (i mod 8) (1 :: u8));
             bit = (if v then 1 else 0 :: u8); mask = push_bit (i mod 8) bit
         in Inr (b[i div 8 := (byte AND null) OR mask]))
      else Inl IndexOutOfRange)"

definition setbyte :: "nat \<Rightarrow> u8 list \<Rightarrow> nat \<Rightarrow> u8 \<Rightarrow> error + u8 list" where
  "setbyte nbits b i v =
     (if i < nrBytes nbits then Inr (b[i := v]) else Inl ByteIndexOutOfRange)"

text \<open>
  \<^verbatim>\<open>set_raw_bits\<close>: the bytes of the 64-bit argument, least significant first, one per
  storage byte, then the mask.
\<close>

fun raw_bytes :: "nat \<Rightarrow> 64 word \<Rightarrow> u8 list" where
  "raw_bytes 0 v = []"
| "raw_bytes (Suc n) v = ucast (v AND 0xFF) # raw_bytes n (drop_bit 8 v)"

definition set_raw_bits :: "nat \<Rightarrow> 64 word \<Rightarrow> u8 list" where
  "set_raw_bits nbits v = mask_top nbits (raw_bytes (nrBytes nbits) v)"

definition at :: "nat \<Rightarrow> u8 list \<Rightarrow> nat \<Rightarrow> error + bool" where
  "at nbits b i =
     (if i < nbits then
        (let byte = b ! (i div 8); mask = push_bit (i mod 8) (1 :: u8)
         in Inr (byte AND mask \<noteq> 0))
      else Inl IndexOutOfRange)"

definition byte :: "nat \<Rightarrow> u8 list \<Rightarrow> nat \<Rightarrow> error + u8" where
  "byte nbits b i = (if i < nrBytes nbits then Inr (b ! i) else Inl ByteIndexOutOfRange)"

definition sign :: "nat \<Rightarrow> u8 list \<Rightarrow> error + bool" where
  "sign nbits b = at nbits b (nbits - 1)"

fun iszero :: "u8 list \<Rightarrow> bool" where
  "iszero [] = True"
| "iszero (x # xs) = (if x \<noteq> 0 then False else iszero xs)"

text \<open>\<^verbatim>\<open>flip\<close>: one's complement of every byte, then the mask.\<close>

definition flip :: "nat \<Rightarrow> u8 list \<Rightarrow> u8 list" where
  "flip nbits b = mask_top nbits (map (\<lambda>x. NOT x) b)"

text \<open>
  The unsigned number held by the storage, and its reading in two's complement on
  \<open>nbits\<close> bits.
\<close>

fun val :: "u8 list \<Rightarrow> nat" where
  "val [] = 0"
| "val (x # xs) = unat x + 256 * val xs"

definition sval :: "nat \<Rightarrow> u8 list \<Rightarrow> int" where
  "sval nbits b =
     (if val b mod 2 ^ nbits < 2 ^ (nbits - 1) then int (val b mod 2 ^ nbits)
      else int (val b mod 2 ^ nbits) - 2 ^ nbits)"

section \<open>Construction from native integers\<close>

text \<open>
  \<^verbatim>\<open>convert(int64_t v, integer<nbits>& result)\<close>. The native value is an \<open>int\<close> in the
  range of \<^verbatim>\<open>int64_t\<close>; \<^verbatim>\<open>v & mask\<close> tests its lowest bit and \<^verbatim>\<open>v >>= 1\<close> is the
  arithmetic shift, \<open>drop_bit 1\<close> on \<open>int\<close>.
\<close>

function convert_loop :: "nat \<Rightarrow> nat \<Rightarrow> nat \<Rightarrow> int \<Rightarrow> u8 list \<Rightarrow> error + u8 list" where
  "convert_loop nbits upper i v result =
     (if i < upper \<and> v \<noteq> 0 then
        bindE (if v AND 1 \<noteq> 0 then set_i nbits result i else Inr result)
          (convert_loop nbits upper (Suc i) (drop_bit 1 v))
      else Inr result)"
  by pat_completeness auto
termination
  by (relation "measure (\<lambda>(nbits, upper, i, v, result). upper - i)") auto

declare convert_loop.simps [simp del]

definition convert :: "nat \<Rightarrow> int \<Rightarrow> error + u8 list" where
  "convert nbits v =
     (let negative = (v < 0); upper = (if nbits \<le> 64 then nbits else 64)
      in bindE (convert_loop nbits upper 0 v (clear nbits))
           (\<lambda>result. if nbits > 64 \<and> negative
                      then for_up upper nbits (\<lambda>i r. set_i nbits r i) result
                      else Inr result))"

text \<open>
  \<^verbatim>\<open>integer(const int)\<close> and the other signed constructors, through
  \<^verbatim>\<open>operator=(const int rhs)\<close>.
\<close>

definition integer_of :: "nat \<Rightarrow> int \<Rightarrow> error + u8 list" where
  "integer_of nbits rhs = (if 0 = rhs then Inr (setzero nbits) else convert nbits rhs)"

section \<open>Arithmetic operators\<close>

text \<open>
  \<^verbatim>\<open>operator+=\<close>: byte by byte, the sum taken in \<^verbatim>\<open>uint16_t\<close>, the carry being
  \<^verbatim>\<open>s > 255\<close>; then the mask. It has no throwing statement.
\<close>

fun add_bytes :: "bool \<Rightarrow> u8 list \<Rightarrow> u8 list \<Rightarrow> u8 list" where
  "add_bytes carry (l # ls) (r # rs) =
     (let s = (ucast l :: 16 word) + ucast r + (if carry then 1 else 0)
      in ucast (s AND 0xFF) # add_bytes (s > 255) ls rs)"
| "add_bytes carry ls rs = []"

definition add_assign :: "nat \<Rightarrow> u8 list \<Rightarrow> u8 list \<Rightarrow> u8 list" where
  "add_assign nbits b rhs = mask_top nbits (add_bytes False b rhs)"

text \<open>\<^verbatim>\<open>operator~\<close> and \<^verbatim>\<open>operator++\<close> (prefix), then the free function \<^verbatim>\<open>twos_complement\<close>.\<close>

definition complement :: "nat \<Rightarrow> u8 list \<Rightarrow> u8 list" where
  "complement nbits b = flip nbits b"

definition increment :: "nat \<Rightarrow> u8 list \<Rightarrow> error + u8 list" where
  "increment nbits b =
     bindE (integer_of nbits 1) (\<lambda>one. Inr (mask_top nbits (add_assign nbits b one)))"

definition twos_complement :: "nat \<Rightarrow> u8 list \<Rightarrow> error + u8 list" where
  "twos_complement nbits v = increment nbits (complement nbits v)"

text \<open>Unary \<^verbatim>\<open>operator-\<close>: \<^verbatim>\<open>negated.flip(); negated += 1;\<close>\<close>

definition negate :: "nat \<Rightarrow> u8 list \<Rightarrow> error + u8 list" where
  "negate nbits b =
     bindE (integer_of nbits 1) (\<lambda>one. Inr (add_assign nbits (flip nbits b) one))"

definition sub_assign :: "nat \<Rightarrow> u8 list \<Rightarrow> u8 list \<Rightarrow> error + u8 list" where
  "sub_assign nbits b rhs =
     bindE (twos_complement nbits rhs) (\<lambda>t. Inr (add_assign nbits b t))"

text \<open>
  \<^verbatim>\<open>operator<<=\<close> and \<^verbatim>\<open>operator>>=\<close> call each other on a negative amount. The amount is
  the \<^verbatim>\<open>signed\<close> argument as an \<open>int\<close>; the source negates it, which is defined for every
  \<^verbatim>\<open>int\<close> but the least one.
\<close>

function shl_assign :: "nat \<Rightarrow> u8 list \<Rightarrow> int \<Rightarrow> error + u8 list"
  and shr_assign :: "nat \<Rightarrow> u8 list \<Rightarrow> int \<Rightarrow> error + u8 list" where
  "shl_assign nbits b shift =
     (if shift = 0 then Inr b
      else if shift < 0 then shr_assign nbits b (- shift)
      else if int nbits \<le> shift then Inr (clear nbits)
      else for_up (nat shift) nbits
             (\<lambda>i target. bindE (at nbits b (i - nat shift)) (set_iv nbits target i))
             (setzero nbits))"
| "shr_assign nbits b shift =
     (if shift = 0 then Inr b
      else if shift < 0 then shl_assign nbits b (- shift)
      else if int nbits \<le> shift then Inr (clear nbits)
      else for_down (nbits - nat shift) (nat shift)
             (\<lambda>i target. bindE (at nbits b i) (set_iv nbits target (i - nat shift)))
             (setzero nbits))"
  by pat_completeness auto
termination
  by (relation "measure (\<lambda>x. case x of Inl (n, b, s) \<Rightarrow> if s < 0 then 1 else 0
                                      | Inr (n, b, s) \<Rightarrow> if s < 0 then 1 else 0)") auto

declare shl_assign.simps [simp del] shr_assign.simps [simp del]

text \<open>
  \<^verbatim>\<open>operator*=\<close>: shift-and-add over the bits of \<^verbatim>\<open>*this\<close>; the state of the loop is the
  accumulator and the multiplicand.
\<close>

definition mul_assign :: "nat \<Rightarrow> u8 list \<Rightarrow> u8 list \<Rightarrow> error + u8 list" where
  "mul_assign nbits b rhs =
     bindE (for_up 0 nbits
              (\<lambda>i (acc, multiplicant).
                 bindE (at nbits b i) (\<lambda>bit.
                 let acc' = (if bit then add_assign nbits acc multiplicant else acc) in
                 bindE (shl_assign nbits multiplicant 1) (\<lambda>m. Inr (acc', m))))
              (clear nbits, rhs))
       (\<lambda>(acc, multiplicant). Inr acc)"

section \<open>Comparisons and bit utilities\<close>

text \<open>\<^verbatim>\<open>operator==\<close>: the first differing byte decides.\<close>

fun eq :: "u8 list \<Rightarrow> u8 list \<Rightarrow> bool" where
  "eq (l # ls) (r # rs) = (if l \<noteq> r then False else eq ls rs)"
| "eq ls rs = True"

text \<open>
  \<^verbatim>\<open>operator<\<close>: different signs decide; otherwise bits are compared from \<open>nbits - 1\<close>
  down. The counter \<open>Suc i\<close> stands for the loop index \<open>i\<close>.
\<close>

fun lt_loop :: "nat \<Rightarrow> u8 list \<Rightarrow> u8 list \<Rightarrow> nat \<Rightarrow> error + bool" where
  "lt_loop nbits lhs rhs 0 = Inr False"
| "lt_loop nbits lhs rhs (Suc i) =
     bindE (at nbits lhs i) (\<lambda>a.
     bindE (at nbits rhs i) (\<lambda>b.
     if a \<noteq> b then (if a = False then Inr True else Inr False)
     else lt_loop nbits lhs rhs i))"

definition lt :: "nat \<Rightarrow> u8 list \<Rightarrow> u8 list \<Rightarrow> error + bool" where
  "lt nbits lhs rhs =
     bindE (sign nbits lhs) (\<lambda>lhs_is_negative.
     bindE (sign nbits rhs) (\<lambda>rhs_is_negative.
     if lhs_is_negative \<and> \<not> rhs_is_negative then Inr True
     else if rhs_is_negative \<and> \<not> lhs_is_negative then Inr False
     else lt_loop nbits lhs rhs nbits))"

definition le :: "nat \<Rightarrow> u8 list \<Rightarrow> u8 list \<Rightarrow> error + bool" where
  "le nbits lhs rhs = bindE (lt nbits lhs rhs) (\<lambda>l. if l then Inr True else Inr (eq lhs rhs))"

text \<open>
  \<^verbatim>\<open>findMsb\<close>: bytes from the top, and in the first nonzero byte the mask \<^verbatim>\<open>0x80\<close> moving
  right; \<open>-1\<close> when every byte is zero.
\<close>

fun msb_in_byte :: "u8 \<Rightarrow> u8 \<Rightarrow> nat \<Rightarrow> nat option" where
  "msb_in_byte x msk 0 = None"
| "msb_in_byte x msk (Suc j) =
     (if x AND msk \<noteq> 0 then Some j else msb_in_byte x (drop_bit 1 msk) j)"

fun findMsb_loop :: "u8 list \<Rightarrow> nat \<Rightarrow> int" where
  "findMsb_loop b 0 = - 1"
| "findMsb_loop b (Suc i) =
     (if b ! i \<noteq> 0 then
        (case msb_in_byte (b ! i) 0x80 8 of
           Some j \<Rightarrow> int (i * 8 + j)
         | None \<Rightarrow> findMsb_loop b i)
      else findMsb_loop b i)"

definition findMsb :: "nat \<Rightarrow> u8 list \<Rightarrow> int" where
  "findMsb nbits v = findMsb_loop v (nrBytes nbits)"

text \<open>
  \<^verbatim>\<open>bitcopy\<close> into an \<^verbatim>\<open>integer<nbits>\<close> from an \<^verbatim>\<open>integer<src_nbits>\<close>, and the converting
  constructor \<^verbatim>\<open>integer(const integer<srcbits>&)\<close> built on it.
\<close>

definition bitcopy :: "nat \<Rightarrow> nat \<Rightarrow> u8 list \<Rightarrow> error + u8 list" where
  "bitcopy nbits src_nbits src =
     (let lastByte = (if nrBytes nbits < nrBytes src_nbits then nrBytes nbits
                      else nrBytes src_nbits)
      in bindE (for_up 0 lastByte
                  (\<lambda>i b. bindE (byte src_nbits src i) (\<lambda>v. Inr (b[i := v])))
                  (clear nbits))
           (\<lambda>b. Inr (mask_top nbits b)))"

definition integer_from :: "nat \<Rightarrow> nat \<Rightarrow> u8 list \<Rightarrow> error + u8 list" where
  "integer_from nbits srcbits a =
     bindE (bitcopy nbits srcbits a) (\<lambda>b.
     bindE (sign srcbits a) (\<lambda>s.
     if s then for_up srcbits nbits (\<lambda>i r. set_i nbits r i) b else Inr b))"

text \<open>\<^verbatim>\<open>min_int\<close>: \<^verbatim>\<open>mn.set(nbits - 1, true)\<close> on the zero value.\<close>

definition min_int :: "nat \<Rightarrow> error + u8 list" where
  "min_int nbits = set_iv nbits (setzero nbits) (nbits - 1) True"

section \<open>Long division\<close>

text \<open>
  \<^verbatim>\<open>idiv\<close>. The first argument is the build-time switch
  \<^verbatim>\<open>INTEGER_THROW_ARITHMETIC_EXCEPTION\<close>: when it is off, a zero divisor is reported on
  \<^verbatim>\<open>std::cerr\<close> and the function carries on. The result is the pair
  \<^verbatim>\<open>(quot, rem)\<close> of \<^verbatim>\<open>idiv_t\<close>. The state of the loop is the accumulator, the subtractand
  and the quotient.
\<close>

definition idiv_loop ::
  "nat \<Rightarrow> nat \<Rightarrow> u8 list \<times> u8 list \<times> u8 list \<Rightarrow> error + u8 list \<times> u8 list \<times> u8 list" where
  "idiv_loop nbits count =
     for_down count 0
       (\<lambda>i (accumulator, subtractand, quot).
          bindE (le (nbits + 1) subtractand accumulator) (\<lambda>c.
          bindE (if c then
                   bindE (sub_assign (nbits + 1) accumulator subtractand) (\<lambda>acc.
                   bindE (set_i nbits quot i) (\<lambda>q. Inr (acc, q)))
                 else bindE (reset_i nbits quot i) (\<lambda>q. Inr (accumulator, q)))
            (\<lambda>(acc, q).
          bindE (shr_assign (nbits + 1) subtractand 1) (\<lambda>sub. Inr (acc, sub, q)))))"

definition idiv :: "bool \<Rightarrow> nat \<Rightarrow> u8 list \<Rightarrow> u8 list \<Rightarrow> error + u8 list \<times> u8 list" where
  "idiv throw_arithmetic nbits a' b' =
     bindE (integer_of nbits 0) (\<lambda>zero.
     if eq b' zero \<and> throw_arithmetic then Inl DivideByZero
     else
     bindE (sign nbits a') (\<lambda>a_negative.
     bindE (sign nbits b') (\<lambda>b_negative.
     let result_negative = (a_negative \<noteq> b_negative) in
     bindE (if a_negative then negate nbits a' else Inr a') (\<lambda>abs_a.
     bindE (bitcopy (nbits + 1) nbits abs_a) (\<lambda>a.
     bindE (if b_negative then negate nbits b' else Inr b') (\<lambda>abs_b.
     bindE (bitcopy (nbits + 1) nbits abs_b) (\<lambda>b.
     bindE (lt (nbits + 1) a b) (\<lambda>a_lt_b.
     if a_lt_b then Inr (setzero nbits, a')
     else
     let msb_b = findMsb (nbits + 1) b;
         msb_a = findMsb (nbits + 1) a;
         shift = msb_a - msb_b
     in
     bindE (shl_assign (nbits + 1) b shift) (\<lambda>subtractand.
     bindE (idiv_loop nbits (nat (shift + 1)) (a, subtractand, setzero nbits))
       (\<lambda>(accumulator, subtractand, quot).
     bindE (if result_negative
            then bindE (integer_of nbits 1)
                   (\<lambda>one. Inr (add_assign nbits (flip nbits quot) one))
            else Inr quot) (\<lambda>quot.
     bindE (integer_of nbits 0) (\<lambda>zero.
     bindE (lt nbits a' zero) (\<lambda>a_lt_0.
     bindE (if a_lt_0
            then bindE (negate (nbits + 1) accumulator) (integer_from nbits (nbits + 1))
            else integer_from nbits (nbits + 1) accumulator) (\<lambda>rem.
     Inr (quot, rem)))))))))))))))"

text \<open>
  Division of mathematical integers as C defines it: the quotient is rounded towards
  zero and the remainder takes the sign of the dividend.
\<close>

definition trunc_quot :: "int \<Rightarrow> int \<Rightarrow> int" where
  "trunc_quot x y = sgn x * sgn y * (\<bar>x\<bar> div \<bar>y\<bar>)"

definition trunc_rem :: "int \<Rightarrow> int \<Rightarrow> int" where
  "trunc_rem x y = sgn x * (\<bar>x\<bar> mod \<bar>y\<bar>)"

text \<open>\<^verbatim>\<open>divide\<close> and \<^verbatim>\<open>remainder\<close>: the same test of the divisor, then \<^verbatim>\<open>idiv\<close>.\<close>

definition divide_i :: "bool \<Rightarrow> nat \<Rightarrow> u8 list \<Rightarrow> u8 list \<Rightarrow> error + u8 list" where
  "divide_i throw_arithmetic nbits a b =
     bindE (integer_of nbits 0) (\<lambda>zero.
     if eq b zero \<and> throw_arithmetic then Inl DivideByZero
     else bindE (idiv throw_arithmetic nbits a b) (\<lambda>(quot, rem). Inr quot))"

definition remainder :: "bool \<Rightarrow> nat \<Rightarrow> u8 list \<Rightarrow> u8 list \<Rightarrow> error + u8 list" where
  "remainder throw_arithmetic nbits a b =
     bindE (integer_of nbits 0) (\<lambda>zero.
     if eq b zero \<and> throw_arithmetic then Inl DivideByZero
     else bindE (idiv throw_arithmetic nbits a b) (\<lambda>(quot, rem). Inr rem))"

section \<open>The decimal digit engine\<close>

text \<open>
  \<^verbatim>\<open>impl::decimal\<close> is a \<^verbatim>\<open>std::vector<uint8_t>\<close> of digits, least significant first,
  with a sign flag.
\<close>

record decimal =
  digits :: "u8 list"
  dsign :: bool

text \<open>
  \<^verbatim>\<open>unpad\<close>: \<^verbatim>\<open>for (int i = n - 1; i > 0; --i) if (operator[](i) == 0) pop_back();\<close>
\<close>

fun unpad_loop :: "nat \<Rightarrow> u8 list \<Rightarrow> u8 list" where
  "unpad_loop 0 d = d"
| "unpad_loop (Suc i) d = unpad_loop i (if d ! Suc i = 0 then butlast d else d)"

definition unpad :: "decimal \<Rightarrow> decimal" where
  "unpad d = d\<lparr>digits := unpad_loop (length (digits d) - 1) (digits d)\<rparr>"

text \<open>The magnitude a digit sequence stands for.\<close>

fun magnitude :: "u8 list \<Rightarrow> nat" where
  "magnitude [] = 0"
| "magnitude (d # ds) = unat d + 10 * magnitude ds"

text \<open>
  A digit sequence in normal form: decimal digits only, at least one, and no zero at the
  high end unless it is the single digit 0.
\<close>

definition normal :: "u8 list \<Rightarrow> bool" where
  "normal ds \<longleftrightarrow> list_all (\<lambda>d. d < 10) ds \<and> ds \<noteq> []
     \<and> (ds = [0] \<or> 10 ^ (length ds - 1) \<le> magnitude ds)"

text \<open>
  \<^verbatim>\<open>less\<close>: a shorter sequence is smaller; equal lengths are compared digit by digit from
  the most significant end.
\<close>

fun less_digits :: "u8 list \<Rightarrow> u8 list \<Rightarrow> bool" where
  "less_digits (l # ls) (r # rs) =
     (if l < r then True else if l > r then False else less_digits ls rs)"
| "less_digits ls rs = False"

definition less_decimal :: "decimal \<Rightarrow> decimal \<Rightarrow> bool" where
  "less_decimal lhs rhs =
     (let l = length (digits lhs); r = length (digits rhs)
      in if l < r then True else if l > r then False
         else less_digits (rev (digits lhs)) (rev (digits rhs)))"

text \<open>
  The digit loops of \<^verbatim>\<open>add\<close> and \<^verbatim>\<open>sub\<close> run over two sequences padded to the same length.
  In \<^verbatim>\<open>add\<close> the digit is updated in \<^verbatim>\<open>uint8_t\<close>; in \<^verbatim>\<open>sub\<close> the comparison and the
  difference are taken in \<^verbatim>\<open>int\<close> and stored back into a \<^verbatim>\<open>uint8_t\<close>.
\<close>

fun add_digits :: "u8 \<Rightarrow> u8 list \<Rightarrow> u8 list \<Rightarrow> u8 list" where
  "add_digits carry (l # ls) (r # rs) =
     (let l' = l + (r + carry)
      in if l' > 9 then (l' - 10) # add_digits 1 ls rs else l' # add_digits 0 ls rs)"
| "add_digits carry ls rs = (if carry \<noteq> 0 then [1] else [])"

fun sub_digits :: "int \<Rightarrow> u8 list \<Rightarrow> u8 list \<Rightarrow> u8 list" where
  "sub_digits borrow (l # ls) (r # rs) =
     (if uint r > uint l - borrow
      then word_of_int (10 + uint l - borrow - uint r) # sub_digits 1 ls rs
      else word_of_int (uint l - borrow - uint r) # sub_digits 0 ls rs)"
| "sub_digits borrow ls rs = []"

function add_decimal :: "decimal \<Rightarrow> decimal \<Rightarrow> decimal"
  and sub_decimal :: "decimal \<Rightarrow> decimal \<Rightarrow> decimal" where
  "add_decimal lhs rhs =
     (if dsign lhs \<noteq> dsign rhs then sub_decimal lhs (rhs\<lparr>dsign := \<not> dsign rhs\<rparr>)
      else
        (let l = length (digits lhs); r = length (digits rhs);
             ld = (if l < r then digits lhs @ replicate (r - l) 0 else digits lhs);
             rd = (if l < r then digits rhs else digits rhs @ replicate (l - r) 0)
         in lhs\<lparr>digits := add_digits 0 ld rd\<rparr>))"
| "sub_decimal lhs rhs =
     (if dsign lhs \<noteq> dsign rhs then add_decimal lhs (rhs\<lparr>dsign := \<not> dsign rhs\<rparr>)
      else
        (let sgn = dsign lhs; l = length (digits lhs); r = length (digits rhs);
             (ld, rd, sgn') =
               (if l < r then (digits rhs, digits lhs @ replicate (r - l) 0, \<not> sgn)
                else if r < l then (digits lhs, digits rhs @ replicate (l - r) 0, sgn)
                else if less_decimal lhs rhs then (digits rhs, digits lhs, \<not> sgn)
                else (digits lhs, digits rhs, sgn))
         in (unpad \<lparr>digits = sub_digits 0 ld rd, dsign = dsign lhs\<rparr>)\<lparr>dsign := sgn'\<rparr>))"
  by pat_completeness auto
termination
  by (relation "measure (\<lambda>x. case x of Inl (l, r) \<Rightarrow> if dsign l \<noteq> dsign r then 1 else 0
                                      | Inr (l, r) \<Rightarrow> if dsign l \<noteq> dsign r then 1 else 0)") auto

declare add_decimal.simps [simp del] sub_decimal.simps [simp del]

section \<open>Text codec\<close>

text \<open>How \<^verbatim>\<open>ss << (int)digit\<close> prints a non-negative \<^verbatim>\<open>int\<close>.\<close>

definition digit_char :: "nat \<Rightarrow> char" where
  "digit_char n = ''0123456789'' ! n"

function string_of_nat :: "nat \<Rightarrow> string" where
  "string_of_nat n =
     (if n < 10 then [digit_char n] else string_of_nat (n div 10) @ [digit_char (n mod 10)])"
  by pat_completeness auto
termination
  by (relation "measure (\<lambda>n. n)") auto

declare string_of_nat.simps [simp del]

definition convert_to_decimal_string :: "nat \<Rightarrow> u8 list \<Rightarrow> error + string" where
  "convert_to_decimal_string nbits v =
     (if iszero v then Inr ''0''
      else
        bindE (sign nbits v) (\<lambda>negative.
        bindE (if negative then twos_complement nbits v else Inr v) (\<lambda>number.
        bindE (for_up 0 nbits
                 (\<lambda>i (partial, multiplier).
                    bindE (at nbits number i) (\<lambda>bit.
                    Inr (if bit then add_decimal partial multiplier else partial,
                         add_decimal multiplier multiplier)))
                 (\<lparr>digits = [0], dsign = False\<rparr>, \<lparr>digits = [1], dsign = False\<rparr>))
          (\<lambda>(partial, multiplier).
             Inr ((if negative then ''-'' else [])
                  @ concat (map (\<lambda>d. string_of_nat (unat d)) (rev (digits partial))))))))"

text \<open>
  The three \<^verbatim>\<open>std::regex\<close> patterns of \<^verbatim>\<open>parse\<close>, each matched against the whole string:
  \<^verbatim>\<open>[0-9]+\<close>, \<^verbatim>\<open>^0[1-7][0-7]*$\<close> and \<^verbatim>\<open>0[xX][0-9a-fA-F']+\<close>.
\<close>

definition apostrophe :: char where
  "apostrophe = CHR 0x27"

definition decimal_regex :: "string \<Rightarrow> bool" where
  "decimal_regex s = (s \<noteq> [] \<and> list_all (\<lambda>c. c \<in> set ''0123456789'') s)"

fun octal_regex :: "string \<Rightarrow> bool" where
  "octal_regex (c0 # c1 # cs) =
     (c0 = CHR ''0'' \<and> c1 \<in> set ''1234567'' \<and> list_all (\<lambda>c. c \<in> set ''01234567'') cs)"
| "octal_regex s = False"

fun hex_regex :: "string \<Rightarrow> bool" where
  "hex_regex (c0 # c1 # cs) =
     (c0 = CHR ''0'' \<and> (c1 = CHR ''x'' \<or> c1 = CHR ''X'') \<and> cs \<noteq> []
      \<and> list_all (\<lambda>c. c \<in> set ''0123456789abcdefABCDEF'' \<or> c = apostrophe) cs)"
| "hex_regex s = False"

definition charLookup :: "char \<Rightarrow> int option" where
  "charLookup = map_of
     [(CHR ''0'', 0), (CHR ''1'', 1), (CHR ''2'', 2), (CHR ''3'', 3), (CHR ''4'', 4),
      (CHR ''5'', 5), (CHR ''6'', 6), (CHR ''7'', 7), (CHR ''8'', 8), (CHR ''9'', 9),
      (CHR ''a'', 10), (CHR ''b'', 11), (CHR ''c'', 12), (CHR ''d'', 13), (CHR ''e'', 14),
      (CHR ''f'', 15), (CHR ''A'', 10), (CHR ''B'', 11), (CHR ''C'', 12), (CHR ''D'', 13),
      (CHR ''E'', 14), (CHR ''F'', 15)]"

definition charLookup_at :: "char \<Rightarrow> error + int" where
  "charLookup_at c = (case charLookup c of None \<Rightarrow> Inl KeyNotFound | Some n \<Rightarrow> Inr n)"

text \<open>
  The hexadecimal loop reads the string from its last character; its state is the value,
  \<^verbatim>\<open>byte\<close>, \<^verbatim>\<open>byteIndex\<close>, \<^verbatim>\<open>odd\<close> and \<^verbatim>\<open>bSuccess\<close>. \<^verbatim>\<open>byte\<close> is read only after it has been
  written, so its initial value does not matter.
\<close>

fun hex_loop ::
  "nat \<Rightarrow> string \<Rightarrow> u8 list \<times> int \<times> nat \<times> bool \<times> bool
     \<Rightarrow> error + u8 list \<times> int \<times> nat \<times> bool \<times> bool" where
  "hex_loop nbits [] st = Inr st"
| "hex_loop nbits (c # cs) (v, byte_v, byteIndex, odd_v, bSuccess) =
     (if c = apostrophe then hex_loop nbits cs (v, byte_v, byteIndex, odd_v, bSuccess)
      else if c = CHR ''x'' \<or> c = CHR ''X'' then
        bindE (if odd_v then setbyte nbits v byteIndex (word_of_int byte_v) else Inr v)
          (\<lambda>v'. hex_loop nbits cs (v', byte_v, byteIndex, odd_v, True))
      else if odd_v then
        bindE (charLookup_at c) (\<lambda>n.
        let nbyte = byte_v + n * 16 in
        bindE (setbyte nbits v byteIndex (word_of_int nbyte))
          (\<lambda>v'. hex_loop nbits cs (v', nbyte, byteIndex + 1, \<not> odd_v, bSuccess)))
      else
        bindE (charLookup_at c)
          (\<lambda>n. hex_loop nbits cs (v, n, byteIndex, \<not> odd_v, bSuccess)))"

text \<open>The decimal loop, also from the last character; its state is the value and the scale.\<close>

fun decimal_loop :: "nat \<Rightarrow> string \<Rightarrow> u8 list \<times> u8 list \<Rightarrow> error + u8 list \<times> u8 list" where
  "decimal_loop nbits [] st = Inr st"
| "decimal_loop nbits (c # cs) (v, scale) =
     bindE (charLookup_at c) (\<lambda>n.
     bindE (integer_of nbits n) (\<lambda>digit.
     bindE (mul_assign nbits scale digit) (\<lambda>p.
     let v' = add_assign nbits v p in
     bindE (integer_of nbits 10) (\<lambda>ten.
     bindE (mul_assign nbits scale ten) (\<lambda>scale'.
     decimal_loop nbits cs (v', scale'))))))"

definition parse :: "nat \<Rightarrow> string \<Rightarrow> error + bool \<times> u8 list" where
  "parse nbits number =
     (let v = clear nbits in
      if octal_regex number then Inr (False, v)
      else if hex_regex number then
        bindE (hex_loop nbits (rev number) (v, 0, 0, False, False))
          (\<lambda>(v', byte_v, byteIndex, odd_v, bSuccess). Inr (bSuccess, v'))
      else if decimal_regex number then
        bindE (integer_of nbits 1) (\<lambda>scale.
        bindE (decimal_loop nbits (rev number) (v, scale))
          (\<lambda>(v', scale'). Inr (True, v')))
      else Inr (False, v))"

section \<open>Basic facts about the error plumbing\<close>

lemma bindE_Inr [simp]: "bindE (Inr x) f = f x"
  by (simp add: bindE_def)

lemma bindE_Inl [simp]: "bindE (Inl e) f = Inl e"
  by (simp add: bindE_def)

lemma bindE_eq_Inr: "bindE m f = Inr y \<longleftrightarrow> (\<exists>x. m = Inr x \<and> f x = Inr y)"
  by (cases m) simp_all

lemma eq_same [simp]: "eq a a"
  by (induction a) simp_all

lemma integer_of_0 [simp]: "integer_of nbits 0 = Inr (clear nbits)"
  by (simp add: integer_of_def setzero_def)

section \<open>The number held by the storage\<close>

lemma bit_add_shift:
  fixes a m :: nat
  assumes "a < 2 ^ n"
  shows "bit (a + 2 ^ n * m) i \<longleftrightarrow> (if i < n then bit a i else bit m (i - n))"
proof -
  have t: "take_bit n (a + 2 ^ n * m) = a"
    using assms by (simp add: take_bit_eq_mod)
  have d: "drop_bit n (a + 2 ^ n * m) = m"
    using assms by (simp add: drop_bit_eq_div)
  show ?thesis
  proof (cases "i < n")
    case True
    then have "bit (a + 2 ^ n * m) i = bit (take_bit n (a + 2 ^ n * m)) i"
      by (simp add: bit_take_bit_iff)
    with True t show ?thesis by simp
  next
    case False
    then have "bit (a + 2 ^ n * m) i = bit (drop_bit n (a + 2 ^ n * m)) (i - n)"
      by (simp add: bit_drop_bit_eq)
    with False d show ?thesis by simp
  qed
qed

lemma val_lt: "val b < 256 ^ length b"
proof (induction b)
  case Nil
  then show ?case by simp
next
  case (Cons x xs)
  have "unat x < 256" using unsigned_less [of x] by simp
  with Cons show ?case by simp
qed

lemma val_lt_pow2: "val b < 2 ^ (8 * length b)"
  using val_lt [of b] by (simp add: power_mult)

lemma bit_val: "bit (val b) i \<longleftrightarrow> i < 8 * length b \<and> bit (b ! (i div 8)) (i mod 8)"
proof (induction b arbitrary: i)
  case Nil
  then show ?case by simp
next
  case (Cons x xs)
  have x: "unat x < 2 ^ 8" using unsigned_less [of x] by simp
  have "bit (val (x # xs)) i = (if i < 8 then bit (unat x) i else bit (val xs) (i - 8))"
    using bit_add_shift [OF x, of "val xs" i] by simp
  also have "\<dots> = (i < 8 * length (x # xs) \<and> bit ((x # xs) ! (i div 8)) (i mod 8))"
  proof (cases "i < 8")
    case True
    then show ?thesis by (simp add: bit_unsigned_iff)
  next
    case False
    then have "i div 8 = Suc ((i - 8) div 8)" "i mod 8 = (i - 8) mod 8"
      by (simp_all add: le_div_geq le_mod_geq)
    with False Cons [of "i - 8"] show ?thesis by auto
  qed
  finally show ?case .
qed

lemma val_inj: "length a = length b \<Longrightarrow> val a = val b \<Longrightarrow> a = b"
proof (induction a arbitrary: b)
  case Nil
  then show ?case by simp
next
  case (Cons x xs)
  then obtain y ys where b: "b = y # ys" by (cases b) auto
  have x: "unat x < 256" and y: "unat y < 256"
    using unsigned_less [of x] unsigned_less [of y] by simp_all
  from Cons.prems b have e: "unat x + 256 * val xs = unat y + 256 * val ys" by simp
  have "(unat x + 256 * val xs) mod 256 = unat x" "(unat y + 256 * val ys) mod 256 = unat y"
    using x y by simp_all
  with e have u: "unat x = unat y" by simp
  then have xy: "x = y" by (simp add: word_unat_eq_iff)
  from u e have "val xs = val ys" by simp
  moreover from Cons.prems b have "length xs = length ys" by simp
  ultimately have "xs = ys" by (rule Cons.IH [rotated])
  with xy b show ?case by simp
qed

lemma val_replicate_0 [simp]: "val (replicate n 0) = 0"
  by (induction n) simp_all

lemma val_clear [simp]: "val (clear nbits) = 0"
  by (simp add: clear_def)

lemma length_clear [simp]: "length (clear nbits) = nrBytes nbits"
  by (simp add: clear_def)

lemma nrBytes_bounds: "0 < nbits \<Longrightarrow> nbits \<le> 8 * nrBytes nbits \<and> 8 * nrBytes nbits < nbits + 8"
  unfolding nrBytes_def by presburger

lemma nrBytes_pos [simp]: "0 < nrBytes nbits"
  by (simp add: nrBytes_def)

lemma MS_BYTE_lt [simp]: "MS_BYTE nbits < nrBytes nbits"
  by (simp add: MS_BYTE_def)

lemma xFF_eq: "(0xFF :: u8) = - 1"
  by simp

lemma bit_MS_BYTE_MASK:
  "0 < nbits \<Longrightarrow> bit (MS_BYTE_MASK nbits) j \<longleftrightarrow> 8 * MS_BYTE nbits + j < nbits"
  unfolding MS_BYTE_MASK_def MS_BYTE_def xFF_eq
  using nrBytes_bounds [of nbits]
  by (auto simp add: bit_drop_bit_eq bit_mask_iff)

lemma wf_length: "wf nbits b \<Longrightarrow> length b = nrBytes nbits"
  by (simp add: wf_def)

lemma wf_pos: "wf nbits b \<Longrightarrow> 0 < nbits"
  by (simp add: wf_def)

lemma wf_clear [simp]: "0 < nbits \<Longrightarrow> wf nbits (clear nbits)"
  by (simp add: wf_def)

lemma MS_BYTE_bound: "0 < nbits \<Longrightarrow> 8 * MS_BYTE nbits < nbits"
  using nrBytes_bounds [of nbits] nrBytes_pos [of nbits] unfolding MS_BYTE_def by arith

lemma length_mask_top [simp]: "length (mask_top nbits b) = length b"
  by (simp add: mask_top_def)

lemma bit_val_mask_top:
  assumes "wf nbits b"
  shows "bit (val (mask_top nbits b)) i \<longleftrightarrow> i < nbits \<and> bit (val b) i"
proof -
  from assms have n: "0 < nbits" and l: "length b = nrBytes nbits"
    by (simp_all add: wf_def)
  note bnd = nrBytes_bounds [OF n] and mb = MS_BYTE_bound [OF n]
  show ?thesis
  proof (cases "i < 8 * length b")
    case False
    with l bnd show ?thesis by (simp add: bit_val)
  next
    case True
    then have d: "i div 8 < nrBytes nbits" using l by simp
    show ?thesis
    proof (cases "i div 8 = MS_BYTE nbits")
      case True
      have "8 * (i div 8) + i mod 8 = i" by simp
      with True have "8 * MS_BYTE nbits + i mod 8 = i" by simp
      with True d l \<open>i < 8 * length b\<close> show ?thesis
        by (simp add: bit_val mask_top_def bit_and_iff bit_MS_BYTE_MASK [OF n])
    next
      case False
      with d have "i div 8 < MS_BYTE nbits" by (simp add: MS_BYTE_def)
      then have "i < 8 * MS_BYTE nbits" by simp
      with mb have "i < nbits" by simp
      with False show ?thesis by (simp add: bit_val mask_top_def)
    qed
  qed
qed

lemma val_mask_top: "wf nbits b \<Longrightarrow> val (mask_top nbits b) = take_bit nbits (val b)"
  by (rule bit_eqI) (simp add: bit_val_mask_top bit_take_bit_iff)

lemma wf_mask_top [simp]: "wf nbits b \<Longrightarrow> wf nbits (mask_top nbits b)"
  by (simp add: wf_def)

lemma mask_top_idem: "wf nbits b \<Longrightarrow> mask_top nbits (mask_top nbits b) = mask_top nbits b"
  by (rule val_inj) (simp_all add: val_mask_top)

subsection \<open>Addition\<close>

lemma length_add_bytes [simp]: "length (add_bytes c a b) = min (length a) (length b)"
  by (induction c a b rule: add_bytes.induct) (simp_all add: Let_def)

lemma unat_byte_sum:
  "unat ((ucast (l :: u8) :: 16 word) + ucast (r :: u8) + (if c then 1 else 0))
     = unat l + unat r + (if c then 1 else 0)"
proof -
  have l: "unat l < 256" and r: "unat r < 256"
    using unsigned_less [of l] unsigned_less [of r] by simp_all
  have "unat ((ucast l :: 16 word) + ucast r + (if c then 1 else 0))
          = (unat l + unat r + (if c then 1 else 0)) mod 2 ^ 16"
    by (simp add: unat_word_ariths unsigned_ucast_eq take_bit_eq_mod mod_simps)
  with l r show ?thesis by simp
qed

lemma unat_low_byte: "unat (ucast ((s :: 16 word) AND 0xFF) :: u8) = unat s mod 256"
proof -
  have "(0xFF :: 16 word) = mask 8" by (simp add: mask_eq_exp_minus_1)
  then have "s AND 0xFF = take_bit 8 s" by (simp only: take_bit_eq_mask)
  then have "unat (s AND 0xFF) = unat s mod 256"
    by (simp only: unsigned_take_bit_eq) (simp add: take_bit_eq_mod)
  then show ?thesis by (simp add: unsigned_ucast_eq take_bit_eq_mod)
qed

lemma val_add_bytes_carry:
  "length a = length b \<Longrightarrow>
   \<exists>k. val (add_bytes c a b) + 256 ^ length a * k = val a + val b + (if c then 1 else 0)"
proof (induction c a b rule: add_bytes.induct)
  case (1 carry l ls r rs)
  define s where "s = (ucast l :: 16 word) + ucast r + (if carry then 1 else 0)"
  have us: "unat s = unat l + unat r + (if carry then 1 else 0)"
    unfolding s_def by (rule unat_byte_sum)
  have gt: "(s > 255) = (255 < unat s)"
    by (simp add: word_less_nat_alt)
  from 1 have "length ls = length rs" by simp
  from "1.IH" [OF s_def this]
  obtain k where k: "val (add_bytes (s > 255) ls rs) + 256 ^ length ls * k
     = val ls + val rs + (if s > 255 then 1 else 0)" by blast
  have c: "(if s > 255 then 1 else 0 :: nat) = unat s div 256"
  proof -
    have "unat l < 256" "unat r < 256" using unsigned_less [of l] unsigned_less [of r] by simp_all
    with us have "unat s < 512" by (simp split: if_splits)
    then show ?thesis unfolding gt by (auto simp: div_eq_0_iff) 
  qed
  have "val (add_bytes carry (l # ls) (r # rs))
        = unat s mod 256 + 256 * val (add_bytes (s > 255) ls rs)"
    by (simp add: Let_def s_def [symmetric] unat_low_byte)
  then have "val (add_bytes carry (l # ls) (r # rs)) + 256 ^ length (l # ls) * k
        = unat s mod 256 + 256 * (val (add_bytes (s > 255) ls rs) + 256 ^ length ls * k)"
    by (simp add: algebra_simps)
  also have "\<dots> = unat s mod 256 + 256 * (val ls + val rs + unat s div 256)"
    using k c by simp
  also have "\<dots> = unat s + 256 * (val ls + val rs)"
    by (simp add: algebra_simps)
  also have "\<dots> = val (l # ls) + val (r # rs) + (if carry then 1 else 0)"
    using us by simp
  finally show ?case by blast
qed simp_all

lemma val_add_bytes:
  assumes "length a = length b"
  shows "val (add_bytes c a b) = (val a + val b + (if c then 1 else 0)) mod 256 ^ length a"
proof -
  from val_add_bytes_carry [OF assms, of c] obtain k where
    k: "val (add_bytes c a b) + 256 ^ length a * k = val a + val b + (if c then 1 else 0)"
    by blast
  have "val (add_bytes c a b) < 256 ^ length a"
    using val_lt [of "add_bytes c a b"] assms by simp
  then have "val (add_bytes c a b) = (val (add_bytes c a b) + 256 ^ length a * k) mod 256 ^ length a"
    by simp
  with k show ?thesis by simp
qed

lemma wf_add_assign [simp]: "wf nbits a \<Longrightarrow> wf nbits b \<Longrightarrow> wf nbits (add_assign nbits a b)"
  by (simp add: wf_def add_assign_def)

lemma take_bit_mod_256:
  "nbits \<le> 8 * n \<Longrightarrow> take_bit nbits (x mod 256 ^ n) = take_bit nbits (x :: nat)"
proof -
  assume "nbits \<le> 8 * n"
  have "x mod 256 ^ n = take_bit (8 * n) x"
    by (simp add: take_bit_eq_mod power_mult)
  with \<open>nbits \<le> 8 * n\<close> show ?thesis by (simp add: min_def)
qed

lemma val_add_assign:
  assumes "wf nbits a" "wf nbits b"
  shows "val (add_assign nbits a b) = (val a + val b) mod 2 ^ nbits"
proof -
  from assms have l: "length a = length b" and n: "0 < nbits" and la: "length a = nrBytes nbits"
    by (simp_all add: wf_def)
  have w: "wf nbits (add_bytes False a b)" using assms by (simp add: wf_def)
  have "val (add_assign nbits a b) = take_bit nbits ((val a + val b) mod 256 ^ length a)"
    unfolding add_assign_def val_mask_top [OF w] val_add_bytes [OF l] by simp
  also have "\<dots> = take_bit nbits (val a + val b)"
    using nrBytes_bounds [OF n] la by (intro take_bit_mod_256) simp
  finally show ?thesis by (simp add: take_bit_eq_mod)
qed

subsection \<open>One's complement\<close>

lemma bit_val_flip:
  assumes "wf nbits b"
  shows "bit (val (flip nbits b)) i \<longleftrightarrow> i < nbits \<and> \<not> bit (val b) i"
proof -
  from assms have w: "wf nbits (map (\<lambda>x. NOT x) b)" by (simp add: wf_def)
  from assms have "nbits \<le> 8 * length b"
    using nrBytes_bounds [of nbits] by (simp add: wf_def)
  then show ?thesis
    unfolding flip_def bit_val_mask_top [OF w]
    by (auto simp: bit_val bit_not_iff)
qed

lemma wf_flip [simp]: "wf nbits b \<Longrightarrow> wf nbits (flip nbits b)"
  by (simp add: wf_def flip_def)

lemma val_flip:
  assumes "wf nbits b"
  shows "int (val (flip nbits b)) = 2 ^ nbits - 1 - int (val b) mod 2 ^ nbits"
proof -
  have "int (val (flip nbits b)) = take_bit nbits (NOT (int (val b)))"
    by (rule bit_eqI)
      (auto simp: bit_val_flip [OF assms] bit_take_bit_iff bit_not_iff bit_of_nat_iff
        simp flip: bit_of_nat_iff [where ?'a = int])
  also have "\<dots> = mask nbits - take_bit nbits (int (val b))"
    by (rule take_bit_not_eq_mask_diff)
  finally show ?thesis
    by (simp add: mask_eq_exp_minus_1 take_bit_eq_mod)
qed

subsection \<open>Bit accessors\<close>

lemma and_pow2_u8: "(x AND 2 ^ j \<noteq> 0) = bit (x :: u8) j"
  using bit_iff_and_push_bit_not_eq_0 [of x j] by simp

lemma bit_pow2_u8: "j < 8 \<Longrightarrow> bit (2 ^ j :: u8) m \<longleftrightarrow> m = j"
  by (auto simp: bit_exp_iff)

lemma div8_lt: "k div 8 = i div 8 \<Longrightarrow> i < 8 * n \<Longrightarrow> k < 8 * (n :: nat)"
proof -
  assume e: "k div 8 = i div 8" and "i < 8 * n"
  then have "i div 8 < n" by (simp add: div_less_iff_less_mult mult.commute)
  with e have "k div 8 < n" by simp
  then show ?thesis by (simp add: div_less_iff_less_mult mult.commute)
qed

lemma at_bit:
  assumes "wf nbits b" "i < nbits"
  shows "at nbits b i = Inr (bit (val b) i)"
proof -
  from assms have "i < 8 * length b"
    using nrBytes_bounds [of nbits] by (simp add: wf_def)
  with assms show ?thesis
    by (simp add: at_def bit_val Let_def and_pow2_u8)
qed

lemma at_out_of_range: "nbits \<le> i \<Longrightarrow> at nbits b i = Inl IndexOutOfRange"
  by (simp add: at_def)

lemma sign_bit: "wf nbits b \<Longrightarrow> sign nbits b = Inr (bit (val b) (nbits - 1))"
  by (simp add: sign_def at_bit wf_pos)

lemma bit_val_update:
  assumes "i < 8 * length b"
  shows "bit (val (b[i div 8 := x])) k \<longleftrightarrow>
         (if k div 8 = i div 8 then bit x (k mod 8) else bit (val b) k)"
  using assms by (auto simp: bit_val nth_list_update dest: div8_lt)

lemma div_mod_8_eq: "k div 8 = i div 8 \<Longrightarrow> k mod 8 = i mod 8 \<Longrightarrow> k = (i :: nat)"
  by (metis div_mult_mod_eq)

lemma set_i_bit:
  assumes "wf nbits b" "i < nbits"
  shows "\<exists>r. set_i nbits b i = Inr r \<and> wf nbits r \<and> (\<forall>k. bit (val r) k \<longleftrightarrow> bit (val b) k \<or> k = i)"
proof -
  from assms have l: "i < 8 * length b"
    using nrBytes_bounds [of nbits] by (simp add: wf_def)
  define r where "r = b[i div 8 := b ! (i div 8) OR push_bit (i mod 8) 1]"
  have "set_i nbits b i = Inr r" using assms by (simp add: set_i_def r_def)
  moreover have "wf nbits r" using assms by (simp add: wf_def r_def)
  moreover have "bit (val r) k \<longleftrightarrow> bit (val b) k \<or> k = i" for k
    unfolding r_def bit_val_update [OF l]
    using l by (auto simp: bit_or_iff bit_pow2_u8 bit_val dest: div_mod_8_eq div8_lt)
  ultimately show ?thesis by blast
qed

lemma reset_i_bit:
  assumes "wf nbits b" "i < nbits"
  shows "\<exists>r. reset_i nbits b i = Inr r \<and> wf nbits r \<and> (\<forall>k. bit (val r) k \<longleftrightarrow> bit (val b) k \<and> k \<noteq> i)"
proof -
  from assms have l: "i < 8 * length b"
    using nrBytes_bounds [of nbits] by (simp add: wf_def)
  define r where "r = b[i div 8 := b ! (i div 8) AND NOT (push_bit (i mod 8) 1)]"
  have "reset_i nbits b i = Inr r" using assms by (simp add: reset_i_def r_def)
  moreover have "wf nbits r" using assms by (simp add: wf_def r_def)
  moreover have "bit (val r) k \<longleftrightarrow> bit (val b) k \<and> k \<noteq> i" for k
    unfolding r_def bit_val_update [OF l]
    using l by (auto simp: bit_and_iff bit_not_iff bit_pow2_u8 bit_val dest: div_mod_8_eq div8_lt)
  ultimately show ?thesis by blast
qed

lemma set_iv_bit:
  assumes "wf nbits b" "i < nbits"
  shows "\<exists>r. set_iv nbits b i v = Inr r \<and> wf nbits r
           \<and> (\<forall>k. bit (val r) k \<longleftrightarrow> (if k = i then v else bit (val b) k))"
proof -
  from assms have l: "i < 8 * length b"
    using nrBytes_bounds [of nbits] by (simp add: wf_def)
  define r where "r = b[i div 8 := (b ! (i div 8) AND NOT (push_bit (i mod 8) 1))
                                     OR push_bit (i mod 8) (if v then 1 else 0)]"
  have "set_iv nbits b i v = Inr r" using assms by (simp add: set_iv_def r_def)
  moreover have "wf nbits r" using assms by (simp add: wf_def r_def)
  moreover have "bit (val r) k \<longleftrightarrow> (if k = i then v else bit (val b) k)" for k
    unfolding r_def bit_val_update [OF l]
    using l by (auto simp: bit_or_iff bit_and_iff bit_not_iff bit_pow2_u8 bit_val
        dest: div_mod_8_eq div8_lt)
  ultimately show ?thesis by blast
qed

subsection \<open>Loop rules\<close>

lemma for_up_inv:
  assumes "P i s" and "i \<le> hi"
    and step: "\<And>j t. i \<le> j \<Longrightarrow> j < hi \<Longrightarrow> P j t \<Longrightarrow> \<exists>t'. body j t = Inr t' \<and> P (Suc j) t'"
  shows "\<exists>t. for_up i hi body s = Inr t \<and> P hi t"
  using assms
proof (induction i hi body s rule: for_up.induct)
  case (1 i hi body s)
  show ?case
  proof (cases "i < hi")
    case True
    from "1.prems"(3) [OF le_refl True "1.prems"(1)] obtain t' where
      t': "body i s = Inr t'" "P (Suc i) t'" by blast
    have "\<exists>t. for_up (Suc i) hi body t' = Inr t \<and> P hi t"
    proof (rule "1.IH" [OF True t'(2)])
      show "Suc i \<le> hi" using True by simp
      show "\<exists>t'. body j t = Inr t' \<and> P (Suc j) t'" if "Suc i \<le> j" "j < hi" "P j t" for j t
        using "1.prems"(3) [of j t] that by simp
    qed
    with True t' show ?thesis by (subst for_up.simps) simp
  next
    case False
    with "1.prems" have "i = hi" by simp
    with "1.prems" show ?thesis by (subst for_up.simps) simp
  qed
qed

lemma for_down_inv:
  assumes "P k s"
    and step: "\<And>j t. j < k \<Longrightarrow> P (Suc j) t \<Longrightarrow> \<exists>t'. body (lo + j) t = Inr t' \<and> P j t'"
  shows "\<exists>t. for_down k lo body s = Inr t \<and> P 0 t"
  using assms
proof (induction k arbitrary: s)
  case 0
  then show ?case by simp
next
  case (Suc k)
  from Suc.prems(2) [of k s] Suc.prems(1) obtain t' where
    t': "body (lo + k) s = Inr t'" "P k t'" by blast
  have "\<exists>t. for_down k lo body t' = Inr t \<and> P 0 t"
    by (rule Suc.IH [OF t'(2)]) (use Suc.prems(2) in simp)
  with t' show ?case by simp
qed

subsection \<open>Construction from native integers\<close>

lemma convert_loop_bits:
  assumes "wf nbits result" "upper \<le> nbits"
  shows "\<exists>r. convert_loop nbits upper i v result = Inr r \<and> wf nbits r
           \<and> (\<forall>k. bit (val r) k \<longleftrightarrow> bit (val result) k \<or> (i \<le> k \<and> k < upper \<and> bit v (k - i)))"
  using assms
proof (induction nbits upper i v result rule: convert_loop.induct)
  case (1 nbits upper i v result)
  show ?case
  proof (cases "i < upper \<and> v \<noteq> 0")
    case True
    then have lt: "i < nbits" using "1.prems" by simp
    have odd: "(v AND 1 \<noteq> 0) = bit v 0"
      by (simp add: and_one_eq bit_0 mod_2_eq_odd)
    obtain r' where r': "(if v AND 1 \<noteq> 0 then set_i nbits result i else Inr result) = Inr r'"
      "wf nbits r'" "\<And>k. bit (val r') k \<longleftrightarrow> bit (val result) k \<or> (k = i \<and> bit v 0)"
    proof (cases "bit v 0")
      case True
      with set_i_bit [OF "1.prems"(1) lt] odd that show ?thesis by auto
    next
      case False
      with odd "1.prems"(1) that show ?thesis by auto
    qed
    from "1.IH" [OF True r'(2) "1.prems"(2)] obtain r where
      r: "convert_loop nbits upper (Suc i) (drop_bit 1 v) r' = Inr r" "wf nbits r"
      "\<And>k. bit (val r) k \<longleftrightarrow> bit (val r') k
           \<or> (Suc i \<le> k \<and> k < upper \<and> bit (drop_bit 1 v) (k - Suc i))"
      by blast
    have "bit (val r) k \<longleftrightarrow> bit (val result) k \<or> (i \<le> k \<and> k < upper \<and> bit v (k - i))" for k
    proof (cases "k = i")
      case True
      with r(3) [of k] r'(3) [of k] \<open>i < upper \<and> v \<noteq> 0\<close> show ?thesis by auto
    next
      case False
      have "bit (drop_bit 1 v) (k - Suc i) = bit v (k - i)" if "Suc i \<le> k"
        using that by (simp add: bit_drop_bit_eq Suc_diff_Suc Suc_le_eq)
      moreover have "Suc i \<le> k \<longleftrightarrow> i \<le> k" using False by auto
      ultimately have "(Suc i \<le> k \<and> k < upper \<and> bit (drop_bit 1 v) (k - Suc i))
          = (i \<le> k \<and> k < upper \<and> bit v (k - i))" by blast
      with False show ?thesis unfolding r(3) [of k] r'(3) [of k] by simp
    qed
    with True r r'(1) show ?thesis by (subst convert_loop.simps) simp
  next
    case False
    have "\<not> (i \<le> k \<and> k < upper \<and> bit v (k - i))" for k
      using False by auto
    then have "\<forall>k. bit (val result) k \<longleftrightarrow>
        bit (val result) k \<or> (i \<le> k \<and> k < upper \<and> bit v (k - i))" by blast
    moreover have "convert_loop nbits upper i v result = Inr result"
      by (subst convert_loop.simps) (use False in \<open>simp only: if_False\<close>)
    ultimately show ?thesis using "1.prems" by blast
  qed
qed

lemma nonneg_small_no_high_bit:
  "0 \<le> v \<Longrightarrow> v < 2 ^ n \<Longrightarrow> n \<le> k \<Longrightarrow> \<not> bit (v :: int) k"
proof -
  assume a: "0 \<le> v" "v < 2 ^ n" "n \<le> k"
  then have "take_bit n v = v" by (simp add: take_bit_int_eq_self)
  then have "bit v k = bit (take_bit n v) k" by simp
  also have "\<dots> = False" using a by (simp add: bit_take_bit_iff)
  finally show ?thesis by simp
qed

lemma convert_nonneg:
  assumes "0 < nbits" "0 \<le> v" "v < 2 ^ 63"
  shows "\<exists>r. convert nbits v = Inr r \<and> wf nbits r \<and> int (val r) = v mod 2 ^ nbits"
proof -
  define upper where "upper = (if nbits \<le> 64 then nbits else 64)"
  have u: "upper \<le> nbits" by (simp add: upper_def)
  from convert_loop_bits [OF wf_clear [OF assms(1)] u, of 0 v] obtain r where
    r: "convert_loop nbits upper 0 v (clear nbits) = Inr r" "wf nbits r"
    "\<And>k. bit (val r) k \<longleftrightarrow> k < upper \<and> bit v k"
    by auto
  have c: "convert nbits v = Inr r"
    using r(1) assms(2) by (simp add: convert_def upper_def Let_def)
  have "int (val r) = take_bit nbits v"
  proof (rule bit_eqI)
    fix k
    have "bit (int (val r)) k \<longleftrightarrow> k < upper \<and> bit v k"
      using r(3) [of k] by (simp add: bit_of_nat_iff)
    also have "\<dots> \<longleftrightarrow> k < nbits \<and> bit v k"
    proof (cases "nbits \<le> 64")
      case True
      then show ?thesis by (simp add: upper_def)
    next
      case False
      have "k < 64" if "bit v k"
        using nonneg_small_no_high_bit [OF assms(2,3), of k] that by (cases "k < 64") simp_all
      with False show ?thesis by (auto simp: upper_def not_le)
    qed
    finally show "bit (int (val r)) k = bit (take_bit nbits v) k"
      by (simp add: bit_take_bit_iff)
  qed
  with c r(2) show ?thesis by (simp add: take_bit_eq_mod)
qed

lemma integer_of_nonneg:
  assumes "0 < nbits" "0 \<le> v" "v < 2 ^ 63"
  shows "\<exists>r. integer_of nbits v = Inr r \<and> wf nbits r \<and> int (val r) = v mod 2 ^ nbits"
proof (cases "v = 0")
  case True
  with assms(1) show ?thesis by simp
next
  case False
  with convert_nonneg [OF assms] show ?thesis by (simp add: integer_of_def)
qed

subsection \<open>Negation and subtraction\<close>

lemma ival_add_assign:
  assumes "wf nbits a" "wf nbits b"
  shows "int (val (add_assign nbits a b)) = (int (val a) + int (val b)) mod 2 ^ nbits"
  unfolding val_add_assign [OF assms] by (simp add: zmod_int)

lemma val_lt_of_mod: "int (val r) = x mod 2 ^ nbits \<Longrightarrow> val r < 2 ^ nbits"
proof -
  assume "int (val r) = x mod 2 ^ nbits"
  moreover have "x mod 2 ^ nbits < (2 ^ nbits :: int)" by simp
  ultimately have "int (val r) < 2 ^ nbits" by simp
  then show ?thesis by (metis of_nat_less_iff of_nat_numeral of_nat_power)
qed

lemma negate_val:
  assumes "wf nbits a"
  shows "\<exists>r. negate nbits a = Inr r \<and> wf nbits r \<and> int (val r) = (- int (val a)) mod 2 ^ nbits"
proof -
  from assms have n: "0 < nbits" by (simp add: wf_def)
  from integer_of_nonneg [OF n, of 1] obtain one where
    one: "integer_of nbits 1 = Inr one" "wf nbits one" "int (val one) = 1 mod 2 ^ nbits"
    by auto
  have "int (val (add_assign nbits (flip nbits a) one))
        = (2 ^ nbits - 1 - int (val a) mod 2 ^ nbits + 1 mod 2 ^ nbits) mod 2 ^ nbits"
    using assms one by (simp add: ival_add_assign val_flip)
  also have "\<dots> = (2 ^ nbits - 1 - int (val a) + 1) mod 2 ^ nbits"
    by (simp add: mod_simps)
  also have "\<dots> = (- int (val a)) mod 2 ^ nbits"
    by (simp add: mod_simps)
  finally show ?thesis using assms one by (simp add: negate_def)
qed

lemma mask_top_add_assign:
  "wf nbits a \<Longrightarrow> wf nbits b \<Longrightarrow> mask_top nbits (add_assign nbits a b) = add_assign nbits a b"
  unfolding add_assign_def by (rule mask_top_idem) (simp add: wf_def)

lemma twos_complement_val:
  assumes "wf nbits a"
  shows "\<exists>r. twos_complement nbits a = Inr r \<and> wf nbits r
           \<and> int (val r) = (- int (val a)) mod 2 ^ nbits"
proof -
  from negate_val [OF assms] obtain r where
    r: "negate nbits a = Inr r" "wf nbits r" "int (val r) = (- int (val a)) mod 2 ^ nbits"
    by blast
  from assms have n: "0 < nbits" by (simp add: wf_def)
  from integer_of_nonneg [OF n, of 1] obtain one where
    one: "integer_of nbits 1 = Inr one" "wf nbits one" by auto
  have "twos_complement nbits a = negate nbits a"
    using assms one
    by (simp add: twos_complement_def increment_def complement_def negate_def mask_top_add_assign)
  with r show ?thesis by simp
qed

lemma sub_assign_val:
  assumes "wf nbits a" "wf nbits b"
  shows "\<exists>r. sub_assign nbits a b = Inr r \<and> wf nbits r
           \<and> int (val r) = (int (val a) - int (val b)) mod 2 ^ nbits"
proof -
  from twos_complement_val [OF assms(2)] obtain t where
    t: "twos_complement nbits b = Inr t" "wf nbits t"
       "int (val t) = (- int (val b)) mod 2 ^ nbits" by blast
  have "int (val (add_assign nbits a t)) = (int (val a) + (- int (val b)) mod 2 ^ nbits) mod 2 ^ nbits"
    using assms t by (simp add: ival_add_assign)
  also have "\<dots> = (int (val a) - int (val b)) mod 2 ^ nbits"
    by (simp add: mod_simps)
  finally show ?thesis using assms t by (simp add: sub_assign_def)
qed

lemma val_0_clear: "wf nbits r \<Longrightarrow> val r = 0 \<Longrightarrow> r = clear nbits"
  by (rule val_inj) (simp_all add: wf_def)

subsection \<open>Shifts\<close>

lemma shl_assign_neg: "s < 0 \<Longrightarrow> shl_assign nbits b s = shr_assign nbits b (- s)"
  by (subst shl_assign.simps) simp

lemma shr_assign_neg: "s < 0 \<Longrightarrow> shr_assign nbits b s = shl_assign nbits b (- s)"
  by (subst shr_assign.simps) simp

lemma shl_assign_0 [simp]: "shl_assign nbits b 0 = Inr b"
  by (subst shl_assign.simps) simp

lemma shr_assign_0 [simp]: "shr_assign nbits b 0 = Inr b"
  by (subst shr_assign.simps) simp

lemma shl_assign_large: "0 < s \<Longrightarrow> int nbits \<le> s \<Longrightarrow> shl_assign nbits b s = Inr (clear nbits)"
  by (subst shl_assign.simps) simp

lemma shr_assign_large: "0 < s \<Longrightarrow> int nbits \<le> s \<Longrightarrow> shr_assign nbits b s = Inr (clear nbits)"
  by (subst shr_assign.simps) simp

lemma shl_assign_bits:
  assumes "wf nbits b" "0 < s"
  shows "\<exists>r. shl_assign nbits b s = Inr r \<and> wf nbits r
           \<and> (\<forall>k. bit (val r) k \<longleftrightarrow> nat s \<le> k \<and> k < nbits \<and> bit (val b) (k - nat s))"
proof (cases "int nbits \<le> s")
  case True
  then have "\<not> (nat s \<le> k \<and> k < nbits \<and> bit (val b) (k - nat s))" for k by auto
  with True assms show ?thesis by (simp add: shl_assign_large wf_pos)
next
  case False
  define n where "n = nat s"
  have n: "0 < n" "n < nbits" using assms(2) False by (simp_all add: n_def)
  define P where "P i t \<longleftrightarrow> wf nbits t
      \<and> (\<forall>k. bit (val t) k \<longleftrightarrow> n \<le> k \<and> k < i \<and> bit (val b) (k - n))" for i t
  define body where "body = (\<lambda>i target. bindE (at nbits b (i - n)) (set_iv nbits target i))"
  have "\<exists>t. for_up n nbits body (setzero nbits) = Inr t \<and> P nbits t"
  proof (rule for_up_inv)
    show "P n (setzero nbits)" using assms(1) by (simp add: P_def setzero_def wf_pos)
    show "n \<le> nbits" using n by simp
    show "\<exists>t'. body j t = Inr t' \<and> P (Suc j) t'" if "n \<le> j" "j < nbits" "P j t" for j t
    proof -
      have "j - n < nbits" using that by simp
      then have a: "at nbits b (j - n) = Inr (bit (val b) (j - n))"
        by (rule at_bit [OF assms(1)])
      from that have "wf nbits t" by (simp add: P_def)
      from set_iv_bit [OF this that(2), of "bit (val b) (j - n)"] obtain t' where
        t': "set_iv nbits t j (bit (val b) (j - n)) = Inr t'" "wf nbits t'"
        "\<And>k. bit (val t') k \<longleftrightarrow> (if k = j then bit (val b) (j - n) else bit (val t) k)"
        by blast
      have "bit (val t') k \<longleftrightarrow> n \<le> k \<and> k < Suc j \<and> bit (val b) (k - n)" for k
      proof (cases "k = j")
        case True
        with that(1) t'(3) [of k] show ?thesis by simp
      next
        case False
        then have "k < Suc j \<longleftrightarrow> k < j" by auto
        with False that(3) t'(3) [of k] show ?thesis by (simp add: P_def)
      qed
      with t' a show ?thesis by (auto simp: body_def P_def)
    qed
  qed
  moreover have "shl_assign nbits b s = for_up n nbits body (setzero nbits)"
    using assms(2) False by (subst shl_assign.simps) (simp add: body_def n_def)
  ultimately show ?thesis by (auto simp: P_def n_def)
qed

lemma shr_assign_bits:
  assumes "wf nbits b" "0 < s"
  shows "\<exists>r. shr_assign nbits b s = Inr r \<and> wf nbits r
           \<and> (\<forall>k. bit (val r) k \<longleftrightarrow> k + nat s < nbits \<and> bit (val b) (k + nat s))"
proof (cases "int nbits \<le> s")
  case True
  then have "\<not> (k + nat s < nbits \<and> bit (val b) (k + nat s))" for k by auto
  with True assms show ?thesis by (simp add: shr_assign_large wf_pos)
next
  case False
  define n where "n = nat s"
  have n: "0 < n" "n < nbits" using assms(2) False by (simp_all add: n_def)
  define P where "P j t \<longleftrightarrow> wf nbits t
      \<and> (\<forall>k. bit (val t) k \<longleftrightarrow> j \<le> k \<and> k + n < nbits \<and> bit (val b) (k + n))" for j t
  define body where "body = (\<lambda>i target. bindE (at nbits b i) (set_iv nbits target (i - n)))"
  have "\<exists>t. for_down (nbits - n) n body (setzero nbits) = Inr t \<and> P 0 t"
  proof (rule for_down_inv)
    have "\<not> (nbits - n \<le> k \<and> k + n < nbits \<and> bit (val b) (k + n))" for k by auto
    then show "P (nbits - n) (setzero nbits)"
      using assms(1) by (simp add: P_def setzero_def wf_pos)
    show "\<exists>t'. body (n + j) t = Inr t' \<and> P j t'" if "j < nbits - n" "P (Suc j) t" for j t
    proof -
      have lt: "n + j < nbits" using that by simp
      then have a: "at nbits b (n + j) = Inr (bit (val b) (n + j))"
        by (rule at_bit [OF assms(1)])
      from that have "wf nbits t" by (simp add: P_def)
      moreover have "j < nbits" using lt by simp
      ultimately obtain t' where
        t': "set_iv nbits t j (bit (val b) (n + j)) = Inr t'" "wf nbits t'"
        "\<And>k. bit (val t') k \<longleftrightarrow> (if k = j then bit (val b) (n + j) else bit (val t) k)"
        using set_iv_bit [of nbits t j "bit (val b) (n + j)"] by blast
      have "bit (val t') k \<longleftrightarrow> j \<le> k \<and> k + n < nbits \<and> bit (val b) (k + n)" for k
      proof (cases "k = j")
        case True
        with lt t'(3) [of k] show ?thesis by (simp add: add.commute)
      next
        case False
        then have "Suc j \<le> k \<longleftrightarrow> j \<le> k" by auto
        with False that(2) t'(3) [of k] show ?thesis by (simp add: P_def)
      qed
      with t' a show ?thesis by (auto simp: body_def P_def)
    qed
  qed
  moreover have "shr_assign nbits b s = for_down (nbits - n) n body (setzero nbits)"
    using assms(2) False by (subst shr_assign.simps) (simp add: body_def n_def)
  ultimately show ?thesis by (auto simp: P_def n_def)
qed

lemma shl_assign_val:
  assumes "wf nbits b" "0 < s"
  shows "\<exists>r. shl_assign nbits b s = Inr r \<and> wf nbits r
           \<and> val r = (val b * 2 ^ nat s) mod 2 ^ nbits"
proof -
  from shl_assign_bits [OF assms] obtain r where
    r: "shl_assign nbits b s = Inr r" "wf nbits r"
    "\<And>k. bit (val r) k \<longleftrightarrow> nat s \<le> k \<and> k < nbits \<and> bit (val b) (k - nat s)" by blast
  have "val r = take_bit nbits (push_bit (nat s) (val b))"
    by (rule bit_eqI) (auto simp: r(3) bit_take_bit_iff bit_push_bit_iff)
  with r show ?thesis by (simp add: take_bit_eq_mod push_bit_eq_mult)
qed

lemma shr_assign_val:
  assumes "wf nbits b" "0 < s"
  shows "\<exists>r. shr_assign nbits b s = Inr r \<and> wf nbits r
           \<and> val r = (val b mod 2 ^ nbits) div 2 ^ nat s"
proof -
  from shr_assign_bits [OF assms] obtain r where
    r: "shr_assign nbits b s = Inr r" "wf nbits r"
    "\<And>k. bit (val r) k \<longleftrightarrow> k + nat s < nbits \<and> bit (val b) (k + nat s)" by blast
  have "val r = drop_bit (nat s) (take_bit nbits (val b))"
    by (rule bit_eqI) (auto simp: r(3) bit_take_bit_iff bit_drop_bit_eq add.commute)
  with r show ?thesis by (simp add: take_bit_eq_mod drop_bit_eq_div)
qed

subsection \<open>Multiplication\<close>

lemma mul_assign_val:
  assumes "wf nbits a" "wf nbits b"
  shows "\<exists>r. mul_assign nbits a b = Inr r \<and> wf nbits r
           \<and> val r = (val a * val b) mod 2 ^ nbits"
proof -
  define P where "P i st \<longleftrightarrow> wf nbits (fst st) \<and> wf nbits (snd st)
      \<and> val (fst st) = (take_bit i (val a) * val b) mod 2 ^ nbits
      \<and> val (snd st) mod 2 ^ nbits = (val b * 2 ^ i) mod 2 ^ nbits" for i st
  define body where "body = (\<lambda>i (acc, multiplicant).
                 bindE (at nbits a i) (\<lambda>bit.
                 let acc' = (if bit then add_assign nbits acc multiplicant else acc) in
                 bindE (shl_assign nbits multiplicant 1) (\<lambda>m. Inr (acc', m))))"
  have "\<exists>t. for_up 0 nbits body (clear nbits, b) = Inr t \<and> P nbits t"
  proof (rule for_up_inv)
    show "P 0 (clear nbits, b)" using assms by (simp add: P_def wf_pos)
    show "0 \<le> nbits" by simp
    show "\<exists>t'. body j t = Inr t' \<and> P (Suc j) t'" if "0 \<le> j" "j < nbits" "P j t" for j t
    proof -
      obtain acc m where t: "t = (acc, m)" by (cases t)
      from that(3) t have w: "wf nbits acc" "wf nbits m"
        and acc: "val acc = (take_bit j (val a) * val b) mod 2 ^ nbits"
        and m: "val m mod 2 ^ nbits = (val b * 2 ^ j) mod 2 ^ nbits"
        by (simp_all add: P_def)
      have a: "at nbits a j = Inr (bit (val a) j)" by (rule at_bit [OF assms(1) that(2)])
      from shl_assign_val [OF w(2), of 1] obtain m' where
        m': "shl_assign nbits m 1 = Inr m'" "wf nbits m'" "val m' = (val m * 2) mod 2 ^ nbits"
        by auto
      define acc' where "acc' = (if bit (val a) j then add_assign nbits acc m else acc)"
      have b: "body j t = Inr (acc', m')"
        by (simp add: body_def t a m' acc'_def)
      have w': "wf nbits acc'" using w by (simp add: acc'_def)
      have "val m' mod 2 ^ nbits = (val m mod 2 ^ nbits * 2) mod 2 ^ nbits"
        by (simp add: m'(3) mod_simps)
      also have "\<dots> = (val b * 2 ^ Suc j) mod 2 ^ nbits"
        unfolding m by (simp add: mod_simps mult_ac)
      finally have m2: "val m' mod 2 ^ nbits = (val b * 2 ^ Suc j) mod 2 ^ nbits" .
      have tb: "take_bit (Suc j) (val a) = 2 ^ j * of_bool (bit (val a) j) + take_bit j (val a)"
        by (rule take_bit_Suc_from_most)
      have "val acc' = (take_bit (Suc j) (val a) * val b) mod 2 ^ nbits"
      proof (cases "bit (val a) j")
        case True
        have "val acc' = (val acc + val m mod 2 ^ nbits) mod 2 ^ nbits"
          using True w by (simp add: acc'_def val_add_assign mod_simps)
        also have "\<dots> = (take_bit j (val a) * val b + val b * 2 ^ j) mod 2 ^ nbits"
          unfolding acc m by (simp add: mod_simps)
        also have "\<dots> = (take_bit (Suc j) (val a) * val b) mod 2 ^ nbits"
          unfolding tb using True by (simp add: algebra_simps)
        finally show ?thesis .
      next
        case False
        then show ?thesis unfolding tb by (simp add: acc'_def acc)
      qed
      with b w' m' m2 show ?thesis by (simp add: P_def)
    qed
  qed
  then obtain acc m where
    l: "for_up 0 nbits body (clear nbits, b) = Inr (acc, m)" and p: "P nbits (acc, m)"
    by auto
  have "val acc = (val a * val b) mod 2 ^ nbits"
    using p by (simp add: P_def take_bit_eq_mod mod_simps)
  moreover have "mul_assign nbits a b = Inr acc"
    using l by (simp add: mul_assign_def body_def)
  ultimately show ?thesis using p by (simp add: P_def)
qed

subsection \<open>Comparison\<close>

lemma length_eq_imp_eq: "length a = length b \<Longrightarrow> eq a b \<longleftrightarrow> a = b"
  by (induction a b rule: eq.induct) auto

lemma eq_val: "wf nbits a \<Longrightarrow> wf nbits b \<Longrightarrow> eq a b \<longleftrightarrow> val a = val b"
  using length_eq_imp_eq [of a b] val_inj [of a b] by (auto simp: wf_def)

lemma lt_loop_val:
  assumes "wf nbits x" "wf nbits y"
  shows "i \<le> nbits \<Longrightarrow> lt_loop nbits x y i = Inr (take_bit i (val x) < take_bit i (val y))"
proof (induction i)
  case 0
  then show ?case by simp
next
  case (Suc i)
  then have lt: "i < nbits" by simp
  have x: "take_bit (Suc i) (val x) = 2 ^ i * of_bool (bit (val x) i) + take_bit i (val x)"
    and y: "take_bit (Suc i) (val y) = 2 ^ i * of_bool (bit (val y) i) + take_bit i (val y)"
    by (rule take_bit_Suc_from_most)+
  have bx: "take_bit i (val x) < 2 ^ i" and by': "take_bit i (val y) < 2 ^ i"
    by simp_all
  show ?case
  proof (cases "bit (val x) i = bit (val y) i")
    case True
    with Suc lt assms show ?thesis
      unfolding x y by (simp add: at_bit)
  next
    case False
    have "\<not> 2 ^ i + take_bit i (val x) < take_bit i (val y)" using by' by linarith
    moreover have "take_bit i (val x) < 2 ^ i + take_bit i (val y)" using bx by linarith
    ultimately show ?thesis
      using False lt assms unfolding x y by (cases "bit (val x) i") (simp_all add: at_bit)
  qed
qed

lemma sval_nonneg_iff:
  "0 < nbits \<Longrightarrow> 0 \<le> sval nbits b \<longleftrightarrow> \<not> bit (val b) (nbits - 1)"
proof -
  assume n: "0 < nbits"
  then obtain m where nb: "nbits = Suc m" by (cases nbits) auto
  have t: "val b mod 2 ^ Suc m = 2 ^ m * of_bool (bit (val b) m) + take_bit m (val b)"
    using take_bit_Suc_from_most [of m "val b"] by (simp add: take_bit_eq_mod)
  have lt: "take_bit m (val b) < 2 ^ m" by simp
  have "val b mod 2 ^ Suc m < 2 ^ Suc m" by simp
  then have lt2: "int (val b mod 2 ^ Suc m) < 2 ^ Suc m"
    by (metis of_nat_less_iff of_nat_numeral of_nat_power)
  show ?thesis
  proof (cases "bit (val b) m")
    case True
    with t have "\<not> val b mod 2 ^ Suc m < 2 ^ m" by simp
    with lt2 True show ?thesis unfolding nb sval_def by simp
  next
    case False
    with t lt have "val b mod 2 ^ Suc m < 2 ^ m" by simp
    with False show ?thesis unfolding nb sval_def by simp
  qed
qed

lemma lt_val:
  assumes "wf nbits x" "wf nbits y"
  shows "lt nbits x y = Inr (sval nbits x < sval nbits y)"
proof -
  from assms have n: "0 < nbits" by (simp add: wf_def)
  have l: "lt_loop nbits x y nbits = Inr (val x mod 2 ^ nbits < val y mod 2 ^ nbits)"
    using lt_loop_val [OF assms, of nbits] by (simp add: take_bit_eq_mod)
  have sx: "bit (val x) (nbits - 1) \<longleftrightarrow> sval nbits x < 0"
    and sy: "bit (val y) (nbits - 1) \<longleftrightarrow> sval nbits y < 0"
    using sval_nonneg_iff [OF n, of x] sval_nonneg_iff [OF n, of y] by auto
  have same: "sval nbits x < sval nbits y \<longleftrightarrow> val x mod 2 ^ nbits < val y mod 2 ^ nbits"
    if "(sval nbits x < 0) = (sval nbits y < 0)"
  proof (cases "val x mod 2 ^ nbits < 2 ^ (nbits - 1)")
    case True
    then have "\<not> sval nbits x < 0" by (simp add: sval_def)
    with that have "\<not> sval nbits y < 0" by simp
    then have "val y mod 2 ^ nbits < 2 ^ (nbits - 1)"
      by (auto simp: sval_def split: if_splits)
    with True show ?thesis by (simp add: sval_def)
  next
    case False
    then have "sval nbits x < 0" using sx sval_nonneg_iff [OF n, of x] by (simp add: sval_def)
    with that have "sval nbits y < 0" by simp
    then have "\<not> val y mod 2 ^ nbits < 2 ^ (nbits - 1)"
      by (auto simp: sval_def split: if_splits)
    with False show ?thesis by (simp add: sval_def)
  qed
  show ?thesis
    using same l sx sy assms by (auto simp: lt_def sign_bit)
qed

subsection \<open>Most significant bit\<close>

lemma val_append: "val (xs @ ys) = val xs + 256 ^ length xs * val ys"
  by (induction xs) (simp_all add: algebra_simps)

lemma val_take: "val (take i b) = val b mod 256 ^ i"
proof (cases "i \<le> length b")
  case True
  have "val b = val (take i b) + 256 ^ i * val (drop i b)"
    using val_append [of "take i b" "drop i b"] True by (simp add: min_def)
  moreover have "val (take i b) < 256 ^ i"
  proof -
    have "length (take i b) = i" using True by simp
    with val_lt [of "take i b"] show ?thesis by simp
  qed
  ultimately show ?thesis by simp
next
  case False
  then have "(256 :: nat) ^ length b \<le> 256 ^ i" by (intro power_increasing) simp_all
  with val_lt [of b] have "val b < 256 ^ i" by (rule less_le_trans)
  with False show ?thesis by simp
qed

lemma drop_bit_pow2_u8: "Suc j < 8 \<Longrightarrow> drop_bit 1 (2 ^ Suc j :: u8) = 2 ^ j"
  by (rule bit_eqI) (auto simp: bit_drop_bit_eq bit_exp_iff simp del: power_Suc)

lemma msb_in_byte_correct:
  "x \<noteq> 0 \<Longrightarrow> unat x < 2 ^ j \<Longrightarrow> j = 0 \<or> msk = 2 ^ (j - 1) \<Longrightarrow> j \<le> 8 \<Longrightarrow>
   \<exists>m. msb_in_byte x msk j = Some m \<and> 2 ^ m \<le> unat x \<and> unat x < 2 ^ Suc m"
proof (induction j arbitrary: msk)
  case 0
  then have "unat x = 0" by simp
  with 0 show ?case by (simp add: unat_eq_0)
next
  case (Suc j)
  then have msk: "msk = 2 ^ j" by simp
  have t: "take_bit (Suc j) (unat x) = 2 ^ j * of_bool (bit (unat x) j) + take_bit j (unat x)"
    by (rule take_bit_Suc_from_most)
  have e: "take_bit (Suc j) (unat x) = unat x"
    using Suc.prems(2) by (simp add: take_bit_nat_eq_self)
  have b: "bit (unat x) j = bit x j" by (simp add: bit_unsigned_iff)
  show ?case
  proof (cases "bit x j")
    case True
    with t e b have "2 ^ j \<le> unat x" by simp
    with True Suc.prems(2) show ?thesis by (simp add: msk and_pow2_u8)
  next
    case False
    with t e b have lt: "unat x < 2 ^ j"
      using take_bit_nat_less_exp [of j "unat x"] by simp
    have "j = 0 \<or> drop_bit 1 msk = 2 ^ (j - 1)"
    proof (cases j)
      case 0
      then show ?thesis by simp
    next
      case (Suc k)
      with Suc.prems(4) have "Suc k < 8" by simp
      with Suc show ?thesis by (simp only: msk drop_bit_pow2_u8) simp
    qed
    from Suc.IH [OF Suc.prems(1) lt this] Suc.prems(4) False show ?thesis
      by (simp add: msk and_pow2_u8)
  qed
qed

lemma findMsb_loop_correct:
  "i \<le> length b \<Longrightarrow>
   (if val (take i b) = 0 then findMsb_loop b i = - 1
    else \<exists>m. findMsb_loop b i = int m \<and> 2 ^ m \<le> val (take i b) \<and> val (take i b) < 2 ^ Suc m)"
proof (induction i)
  case 0
  then show ?case by simp
next
  case (Suc i)
  then have i: "i < length b" by simp
  define u where "u = unat (b ! i)"
  define V where "V = val (take i b)"
  have v: "val (take (Suc i) b) = V + 256 ^ i * u"
    using i by (simp add: take_Suc_conv_app_nth val_append u_def V_def min_def)
  have "length (take i b) = i" using i by simp
  with val_lt [of "take i b"] have Vlt: "V < 256 ^ i" by (simp add: V_def)
  show ?case
  proof (cases "b ! i = 0")
    case True
    then have "u = 0" by (simp add: u_def)
    with Suc True show ?thesis by (auto simp: v V_def split: if_splits)
  next
    case False
    have "unat (b ! i) < 2 ^ 8" using unsigned_less [of "b ! i"] by simp
    from msb_in_byte_correct [OF False this, of "0x80"] obtain j where
      j: "msb_in_byte (b ! i) 0x80 8 = Some j" "2 ^ j \<le> u" "u < 2 ^ Suc j"
      by (auto simp: u_def)
    have "(2 :: nat) ^ (8 * i) = (2 ^ 8) ^ i" by (rule power_mult)
    then have p: "(2 :: nat) ^ (i * 8 + j) = 256 ^ i * 2 ^ j"
      by (simp add: power_add mult.commute [of i 8])
    have "(256 :: nat) ^ i * 2 ^ j \<le> 256 ^ i * u" using j(2) by (rule mult_le_mono2)
    then have "256 ^ i * 2 ^ j \<le> V + 256 ^ i * u" by (rule trans_le_add2)
    then have lo: "2 ^ (i * 8 + j) \<le> V + 256 ^ i * u" unfolding p .
    have "Suc u \<le> 2 ^ Suc j" using j(3) by simp
    then have "256 ^ i * Suc u \<le> 256 ^ i * 2 ^ Suc j" by (rule mult_le_mono2)
    with Vlt have "V + 256 ^ i * u < 256 ^ i * 2 ^ Suc j" by simp
    then have hi: "V + 256 ^ i * u < 2 ^ Suc (i * 8 + j)" using p by simp
    have "u \<noteq> 0" using j(2) by (cases "u = 0") simp_all
    then have nz: "val (take (Suc i) b) \<noteq> 0" unfolding v by simp
    have r: "findMsb_loop b (Suc i) = int (i * 8 + j)" using False j(1) by simp
    have "\<exists>m. findMsb_loop b (Suc i) = int m \<and> 2 ^ m \<le> val (take (Suc i) b)
             \<and> val (take (Suc i) b) < 2 ^ Suc m"
      unfolding v using r lo hi by blast
    with nz show ?thesis by (simp only: if_False)
  qed
qed

lemma findMsb_correct:
  assumes "wf nbits b"
  shows "if val b = 0 then findMsb nbits b = - 1
         else \<exists>m. findMsb nbits b = int m \<and> 2 ^ m \<le> val b \<and> val b < 2 ^ Suc m"
  using findMsb_loop_correct [of "nrBytes nbits" b] assms
  by (auto simp: findMsb_def wf_def split: if_splits)

subsection \<open>Copies between widths\<close>

lemma for_up_done: "hi \<le> i \<Longrightarrow> for_up i hi body s = Inr s"
  by (subst for_up.simps) simp

lemma bitcopy_val:
  assumes "wf src_nbits src" "0 < nbits"
  shows "\<exists>r. bitcopy nbits src_nbits src = Inr r \<and> wf nbits r
           \<and> val r = take_bit nbits (val src)"
proof -
  define L where "L = (if nrBytes nbits < nrBytes src_nbits then nrBytes nbits
                       else nrBytes src_nbits)"
  have L: "L \<le> nrBytes nbits" "L \<le> nrBytes src_nbits" by (simp_all add: L_def)
  from assms have ls: "length src = nrBytes src_nbits" by (simp add: wf_def)
  define P where "P i t \<longleftrightarrow> t = take i src @ replicate (nrBytes nbits - i) 0" for i t
  define body where "body = (\<lambda>i b. bindE (byte src_nbits src i) (\<lambda>v. Inr (b[i := v])))"
  have "\<exists>t. for_up 0 L body (clear nbits) = Inr t \<and> P L t"
  proof (rule for_up_inv)
    show "P 0 (clear nbits)" by (simp add: P_def clear_def)
    show "0 \<le> L" by simp
    show "\<exists>t'. body j t = Inr t' \<and> P (Suc j) t'" if "0 \<le> j" "j < L" "P j t" for j t
    proof -
      from that L have j: "j < nrBytes nbits" "j < length src" using ls by simp_all
      then have r: "replicate (nrBytes nbits - j) (0 :: u8) = 0 # replicate (nrBytes nbits - Suc j) 0"
        by (metis Suc_diff_Suc replicate_Suc)
      have "(take j src @ replicate (nrBytes nbits - j) 0)[j := src ! j]
            = take (Suc j) src @ replicate (nrBytes nbits - Suc j) 0"
        unfolding r using j by (simp add: take_Suc_conv_app_nth list_update_append min_def)
      with that j ls show ?thesis by (simp add: body_def byte_def P_def)
    qed
  qed
  then obtain t where t: "for_up 0 L body (clear nbits) = Inr t"
    "t = take L src @ replicate (nrBytes nbits - L) 0" by (auto simp: P_def)
  have wt: "wf nbits t" using L ls assms(2) by (simp add: t(2) wf_def min_def)
  have vt: "val t = val src mod 256 ^ L"
    by (simp add: t(2) val_append val_take)
  have "take_bit nbits (val t) = take_bit nbits (val src)"
  proof (cases "nrBytes nbits < nrBytes src_nbits")
    case True
    then have "L = nrBytes nbits" by (simp add: L_def)
    with nrBytes_bounds [OF assms(2)] show ?thesis
      unfolding vt by (intro take_bit_mod_256) simp
  next
    case False
    then have "L = length src" by (simp add: L_def ls)
    with val_lt [of src] show ?thesis unfolding vt by simp
  qed
  moreover have "bitcopy nbits src_nbits src = Inr (mask_top nbits t)"
    using t(1) by (simp add: bitcopy_def body_def L_def Let_def)
  ultimately show ?thesis using wt by (simp add: val_mask_top)
qed

lemma integer_from_val:
  assumes "wf srcbits a" "0 < nbits" "nbits \<le> srcbits"
  shows "\<exists>r. integer_from nbits srcbits a = Inr r \<and> wf nbits r
           \<and> val r = take_bit nbits (val a)"
proof -
  from bitcopy_val [OF assms(1,2)] obtain r where
    r: "bitcopy nbits srcbits a = Inr r" "wf nbits r" "val r = take_bit nbits (val a)"
    by blast
  then show ?thesis
    using assms by (simp add: integer_from_def sign_bit for_up_done)
qed

subsection \<open>Long division\<close>

lemma sval_small: "val x < 2 ^ (nbits - 1) \<Longrightarrow> 0 < nbits \<Longrightarrow> sval nbits x = int (val x)"
proof -
  assume a: "val x < 2 ^ (nbits - 1)" "0 < nbits"
  have "(2 :: nat) ^ (nbits - 1) \<le> 2 ^ nbits" by (intro power_increasing) simp_all
  with a(1) have "val x < 2 ^ nbits" by (rule less_le_trans)
  then have "val x mod 2 ^ nbits = val x" by simp
  with a show ?thesis by (simp add: sval_def)
qed

lemma int_lt_pow2: "x < 2 ^ k \<Longrightarrow> int x < 2 ^ k"
  by (metis of_nat_less_iff of_nat_numeral of_nat_power)

lemma le_val:
  assumes "wf (Suc n) x" "wf (Suc n) y" "val x < 2 ^ n" "val y < 2 ^ n"
  shows "le (Suc n) x y = Inr (val x \<le> val y)"
proof -
  have "sval (Suc n) x = int (val x)" "sval (Suc n) y = int (val y)"
    using assms(3,4) by (simp_all add: sval_small)
  with lt_val [OF assms(1,2)] have "lt (Suc n) x y = Inr (val x < val y)" by simp
  then show ?thesis
    using eq_val [OF assms(1,2)] by (auto simp: le_def)
qed

lemma set_i_val:
  assumes "wf nbits q" "i < nbits" "\<not> bit (val q) i"
  shows "\<exists>r. set_i nbits q i = Inr r \<and> wf nbits r \<and> val r = val q + 2 ^ i
           \<and> (\<forall>k. bit (val r) k \<longleftrightarrow> bit (val q) k \<or> k = i)"
proof -
  from set_i_bit [OF assms(1,2)] obtain r where
    r: "set_i nbits q i = Inr r" "wf nbits r" "\<And>k. bit (val r) k \<longleftrightarrow> bit (val q) k \<or> k = i"
    by blast
  have "val r = set_bit i (val q)"
    by (rule bit_eqI) (auto simp: r(3) bit_set_bit_iff)
  with assms(3) have "val r = val q + 2 ^ i" by (simp add: set_bit_eq)
  with r show ?thesis by blast
qed

lemma reset_i_val:
  assumes "wf nbits q" "i < nbits" "\<not> bit (val q) i"
  shows "\<exists>r. reset_i nbits q i = Inr r \<and> wf nbits r \<and> val r = val q"
proof -
  from reset_i_bit [OF assms(1,2)] obtain r where
    r: "reset_i nbits q i = Inr r" "wf nbits r" "\<And>k. bit (val r) k \<longleftrightarrow> bit (val q) k \<and> k \<noteq> i"
    by blast
  have "val r = val q"
    by (rule bit_eqI) (use assms(3) in \<open>auto simp: r(3)\<close>)
  with r show ?thesis by blast
qed

lemma idiv_loop_correct:
  assumes w: "wf (Suc n) acc" "wf (Suc n) sub" "0 < n"
    and cnt: "count \<le> n"
    and ub: "0 < ub" "ub * 2 ^ count < 2 * 2 ^ n"
    and sub: "val sub = (ub * 2 ^ count) div 2"
    and acc: "val acc < ub * 2 ^ count" "val acc < 2 ^ n"
  shows "\<exists>acc' sub' q. idiv_loop n count (acc, sub, setzero n) = Inr (acc', sub', q)
           \<and> wf (Suc n) acc' \<and> wf n q
           \<and> val q = val acc div ub \<and> val acc' = val acc mod ub"
proof -
  define ua where "ua = val acc"
  define P where "P j st \<longleftrightarrow> (case st of (a, s, q) \<Rightarrow>
       wf (Suc n) a \<and> wf (Suc n) s \<and> wf n q \<and> val s = (ub * 2 ^ j) div 2
       \<and> val a < ub * 2 ^ j \<and> val a + val q * ub = ua
       \<and> (\<forall>k. bit (val q) k \<longrightarrow> j \<le> k))" for j st
  define body where "body = (\<lambda>i (accumulator, subtractand, quot).
          bindE (le (n + 1) subtractand accumulator) (\<lambda>c.
          bindE (if c then
                   bindE (sub_assign (n + 1) accumulator subtractand) (\<lambda>acc.
                   bindE (set_i n quot i) (\<lambda>q. Inr (acc, q)))
                 else bindE (reset_i n quot i) (\<lambda>q. Inr (accumulator, q)))
            (\<lambda>(acc, q).
          bindE (shr_assign (n + 1) subtractand 1) (\<lambda>sub. Inr (acc, sub, q)))))"
  have "\<exists>t. for_down count 0 body (acc, sub, setzero n) = Inr t \<and> P 0 t"
  proof (rule for_down_inv)
    show "P count (acc, sub, setzero n)"
      using assms by (simp add: P_def ua_def setzero_def)
    show "\<exists>t'. body (0 + j) t = Inr t' \<and> P j t'" if "j < count" "P (Suc j) t" for j t
    proof -
      obtain a s q where t: "t = (a, s, q)" by (cases t)
      from that(2) have wa: "wf (Suc n) a" and ws: "wf (Suc n) s" and wq: "wf n q"
        and s: "val s = ub * 2 ^ j" and a: "val a < ub * 2 ^ Suc j"
        and id: "val a + val q * ub = ua" and bits: "\<And>k. bit (val q) k \<Longrightarrow> Suc j \<le> k"
        by (auto simp: P_def t)
      have jn: "j < n" using that(1) cnt by simp
      have "(2 :: nat) ^ Suc j \<le> 2 ^ count" using that(1) by (intro power_increasing) simp_all
      then have "ub * 2 ^ Suc j \<le> ub * 2 ^ count" by (rule mult_le_mono2)
      then have "ub * 2 ^ Suc j < 2 * 2 ^ n" using ub(2) by (rule le_less_trans)
      then have "2 * (ub * 2 ^ j) < 2 * 2 ^ n" by (simp add: mult_ac)
      then have sn: "val s < 2 ^ n" unfolding s by simp
      have "val a \<le> ua" using id by simp
      with acc(2) have an: "val a < 2 ^ n" by (simp add: ua_def)
      have c: "le (Suc n) s a = Inr (val s \<le> val a)"
        using le_val [OF ws wa sn an] by simp
      have nb: "\<not> bit (val q) j" using bits [of j] by auto
      from shr_assign_val [OF ws, of 1] obtain s' where
        s': "shr_assign (Suc n) s 1 = Inr s'" "wf (Suc n) s'"
        "val s' = (val s mod 2 ^ Suc n) div 2" by auto
      have "val s < 2 ^ Suc n" using sn by simp
      then have s'v: "val s' = (ub * 2 ^ j) div 2" using s'(3) s by simp
      show ?thesis
      proof (cases "val s \<le> val a")
        case True
        from sub_assign_val [OF wa ws] obtain a' where
          a': "sub_assign (Suc n) a s = Inr a'" "wf (Suc n) a'"
          "int (val a') = (int (val a) - int (val s)) mod 2 ^ Suc n" by auto
        have d: "int (val a) - int (val s) = int (val a - val s)" using True by simp
        have "val a - val s < 2 ^ Suc n" using an by simp
        then have "int (val a - val s) < 2 ^ Suc n" by (rule int_lt_pow2)
        then have m: "int (val a - val s) mod 2 ^ Suc n = int (val a - val s)"
          by (intro mod_pos_pos_trivial) simp_all
        have "int (val a') = int (val a - val s) mod 2 ^ Suc n" using a'(3) unfolding d .
        then have "int (val a') = int (val a - val s)" unfolding m .
        then have a'v: "val a' = val a - val s" by (simp only: of_nat_eq_iff)
        from set_i_val [OF wq jn nb] obtain q' where
          q': "set_i n q j = Inr q'" "wf n q'" "val q' = val q + 2 ^ j"
          "\<And>k. bit (val q') k \<longleftrightarrow> bit (val q) k \<or> k = j" by blast
        have b: "body (0 + j) t = Inr (a', s', q')"
          using True by (simp add: body_def t c a' q' s')
        have "val a' < ub * 2 ^ j" using a True unfolding a'v s by simp
        moreover have "val a' + val q' * ub = ua"
          using id True unfolding a'v q'(3) s by (simp add: algebra_simps)
        moreover have "j \<le> k" if "bit (val q') k" for k
          using that bits [of k] q'(4) [of k] by auto
        ultimately show ?thesis
          using b a'(2) s'(2) q'(2) s'v by (simp add: P_def)
      next
        case False
        from reset_i_val [OF wq jn nb] obtain q' where
          q': "reset_i n q j = Inr q'" "wf n q'" "val q' = val q" by blast
        have b: "body (0 + j) t = Inr (a, s', q')"
          using False by (simp add: body_def t c q' s')
        have "val a < ub * 2 ^ j" using False s by simp
        moreover have "j \<le> k" if "bit (val q') k" for k
          using that bits [of k] q'(3) by auto
        ultimately show ?thesis
          using b wa s'(2) q'(2) s'v id q'(3) by (simp add: P_def)
      qed
    qed
  qed
  then obtain a s q where
    l: "for_down count 0 body (acc, sub, setzero n) = Inr (a, s, q)" and p: "P 0 (a, s, q)"
    by auto
  from p have wa: "wf (Suc n) a" "wf n q" and lt: "val a < ub" and id: "val a + val q * ub = val acc"
    by (simp_all add: P_def ua_def)
  have e: "val acc = val a + val q * ub" using id by simp
  have "val acc div ub = val q" unfolding e using lt by simp
  moreover have "val acc mod ub = val a" unfolding e using lt by simp
  moreover have "idiv_loop n count (acc, sub, setzero n) = Inr (a, s, q)"
    using l by (simp add: idiv_loop_def body_def)
  ultimately show ?thesis using wa by simp
qed

lemma iszero_val: "iszero b \<longleftrightarrow> val b = 0"
  by (induction b) (auto simp: unat_eq_0)

lemma I1_val:
  assumes "wf nbits b"
  shows "I1 nbits b \<longleftrightarrow> val b < 2 ^ nbits"
proof -
  have "I1 nbits b \<longleftrightarrow>
        (\<forall>i \<in> set [nbits ..< 8 * length b]. \<not> bit (b ! (i div 8)) (i mod 8))"
    unfolding I1_def filter_empty_conv ..
  also have "\<dots> \<longleftrightarrow> (\<forall>i. nbits \<le> i \<longrightarrow> \<not> bit (val b) i)"
    unfolding bit_val by auto
  also have "\<dots> \<longleftrightarrow> (\<forall>i. bit (take_bit nbits (val b)) i = bit (val b) i)"
    unfolding bit_take_bit_iff by (metis not_less)
  also have "\<dots> \<longleftrightarrow> take_bit nbits (val b) = val b"
    by (simp add: bit_eq_iff)
  also have "\<dots> \<longleftrightarrow> val b < 2 ^ nbits"
    by (simp add: take_bit_nat_eq_self_iff)
  finally show ?thesis .
qed

text \<open>The magnitude of a stored value read in two's complement.\<close>

lemma sign_bit_ge:
  assumes "0 < nbits" "A < 2 ^ nbits"
  shows "bit A (nbits - 1) \<longleftrightarrow> 2 ^ (nbits - 1) \<le> (A :: nat)"
proof -
  from assms(1) obtain m where nb: "nbits = Suc m" by (cases nbits) auto
  have "take_bit (Suc m) A = 2 ^ m * of_bool (bit A m) + take_bit m A"
    by (rule take_bit_Suc_from_most)
  moreover have "take_bit (Suc m) A = A" using assms(2) by (simp add: nb take_bit_nat_eq_self)
  moreover have "take_bit m A < 2 ^ m" by simp
  ultimately show ?thesis unfolding nb by (cases "bit A m") simp_all
qed

lemma abs_operand:
  assumes "wf nbits a" "val a < 2 ^ nbits"
  defines "ua \<equiv> (if bit (val a) (nbits - 1) then 2 ^ nbits - val a else val a)"
  shows "\<exists>x. (if bit (val a) (nbits - 1) then negate nbits a else Inr a) = Inr x
           \<and> wf nbits x \<and> val x = ua"
    and "ua \<le> 2 ^ (nbits - 1)"
    and "val a \<noteq> 0 \<Longrightarrow> 0 < ua"
proof -
  from assms(1) have n: "0 < nbits" by (rule wf_pos)
  have p: "(2 :: nat) ^ nbits = 2 * 2 ^ (nbits - 1)" using n by (cases nbits) simp_all
  note sb = sign_bit_ge [OF n assms(2)]
  show "ua \<le> 2 ^ (nbits - 1)"
  proof (cases "bit (val a) (nbits - 1)")
    case True
    with sb have "2 ^ (nbits - 1) \<le> val a" by simp
    then have "2 * 2 ^ (nbits - 1) - val a \<le> 2 ^ (nbits - 1)" by linarith
    with True show ?thesis unfolding ua_def p by simp
  next
    case False
    with sb show ?thesis by (simp add: ua_def)
  qed
  show "0 < ua" if "val a \<noteq> 0"
    using that assms(2) by (simp add: ua_def)
  show "\<exists>x. (if bit (val a) (nbits - 1) then negate nbits a else Inr a) = Inr x
           \<and> wf nbits x \<and> val x = ua"
  proof (cases "bit (val a) (nbits - 1)")
    case False
    with assms(1) show ?thesis by (simp add: ua_def)
  next
    case True
    from negate_val [OF assms(1)] obtain x where
      x: "negate nbits a = Inr x" "wf nbits x" "int (val x) = (- int (val a)) mod 2 ^ nbits"
      by blast
    from True sb have pos: "0 < val a" by (cases "val a = 0") simp_all
    have "int (2 ^ nbits - val a) < 2 ^ nbits" by (rule int_lt_pow2) (use pos in simp)
    then have m: "int (2 ^ nbits - val a) mod 2 ^ nbits = int (2 ^ nbits - val a)"
      by (intro mod_pos_pos_trivial) simp_all
    have d: "2 ^ nbits - int (val a) = int (2 ^ nbits - val a)"
      using assms(2) by (simp add: of_nat_diff)
    have "(- int (val a)) mod 2 ^ nbits = (2 ^ nbits - int (val a)) mod 2 ^ nbits"
      by (simp add: mod_simps)
    also have "\<dots> = int (2 ^ nbits - val a)" unfolding d m ..
    finally have "int (val x) = int (2 ^ nbits - val a)" using x(3) by (simp only:)
    then have "val x = 2 ^ nbits - val a" by (simp only: of_nat_eq_iff)
    with x True show ?thesis by (simp add: ua_def)
  qed
qed

lemma negate_eq_flip_add:
  "bindE (integer_of nbits 1) (\<lambda>one. Inr (add_assign nbits (flip nbits q) one)) = negate nbits q"
  by (simp add: negate_def)

lemma signed_result:
  assumes "wf nbits q" "val q < 2 ^ nbits"
  shows "\<exists>x. (if neg then negate nbits q else Inr q) = Inr x \<and> wf nbits x
           \<and> int (val x) = ((if neg then - 1 else 1) * int (val q)) mod 2 ^ nbits"
proof (cases neg)
  case True
  from negate_val [OF assms(1)] obtain x where
    "negate nbits q = Inr x" "wf nbits x" "int (val x) = (- int (val q)) mod 2 ^ nbits"
    by blast
  with True show ?thesis by simp
next
  case False
  have "int (val q) < 2 ^ nbits" using assms(2) by (rule int_lt_pow2)
  then have "int (val q) mod 2 ^ nbits = int (val q)"
    by (intro mod_pos_pos_trivial) simp_all
  with False assms show ?thesis by simp
qed

lemma idiv_val:
  assumes wa: "wf nbits a" and wb: "wf nbits b"
    and ia: "val a < 2 ^ nbits" and ib: "val b < 2 ^ nbits" and nz: "val b \<noteq> 0"
  defines "na \<equiv> bit (val a) (nbits - 1)" and "nb \<equiv> bit (val b) (nbits - 1)"
  defines "ua \<equiv> (if na then 2 ^ nbits - val a else val a)"
    and "ub \<equiv> (if nb then 2 ^ nbits - val b else val b)"
  shows "\<exists>q r. idiv strict nbits a b = Inr (q, r) \<and> wf nbits q \<and> wf nbits r
           \<and> int (val q) = ((if na \<noteq> nb then - 1 else 1) * int (ua div ub)) mod 2 ^ nbits
           \<and> int (val r) = ((if na then - 1 else 1) * int (ua mod ub)) mod 2 ^ nbits"
proof -
  from wa have n: "0 < nbits" by (rule wf_pos)
  have p: "(2 :: nat) ^ nbits = 2 * 2 ^ (nbits - 1)" using n by (cases nbits) simp_all
  have b0: "\<not> eq b (clear nbits)"
    using eq_val [OF wb wf_clear [OF n]] nz by simp
  have sa: "sign nbits a = Inr na" and sb: "sign nbits b = Inr nb"
    using wa wb by (simp_all add: sign_bit na_def nb_def)
  from abs_operand [OF wa ia] obtain abs_a where
    abs_a: "(if na then negate nbits a else Inr a) = Inr abs_a" "wf nbits abs_a" "val abs_a = ua"
    and ua_le: "ua \<le> 2 ^ (nbits - 1)"
    unfolding na_def ua_def by blast
  from abs_operand [OF wb ib] nz obtain abs_b where
    abs_b: "(if nb then negate nbits b else Inr b) = Inr abs_b" "wf nbits abs_b" "val abs_b = ub"
    and ub_le: "ub \<le> 2 ^ (nbits - 1)" and ub_pos: "0 < ub"
    unfolding nb_def ub_def by blast
  have "0 < (2 :: nat) ^ (nbits - 1)" by simp
  then have ua_lt: "ua < 2 ^ nbits" and ub_lt: "ub < 2 ^ nbits"
    using ua_le ub_le unfolding p by linarith+
  from bitcopy_val [OF abs_a(2), of "Suc nbits"] obtain a1 where
    a1: "bitcopy (Suc nbits) nbits abs_a = Inr a1" "wf (Suc nbits) a1" "val a1 = ua"
    using ua_lt by (auto simp: abs_a(3) take_bit_nat_eq_self)
  from bitcopy_val [OF abs_b(2), of "Suc nbits"] obtain b1 where
    b1: "bitcopy (Suc nbits) nbits abs_b = Inr b1" "wf (Suc nbits) b1" "val b1 = ub"
    using ub_lt by (auto simp: abs_b(3) take_bit_nat_eq_self)
  have "sval (Suc nbits) a1 = int ua" "sval (Suc nbits) b1 = int ub"
    using ua_lt ub_lt a1(3) b1(3) by (simp_all add: sval_small)
  with lt_val [OF a1(2) b1(2)] have cmp: "lt (Suc nbits) a1 b1 = Inr (ua < ub)" by simp
  have z: "lt nbits a (clear nbits) = Inr na"
  proof -
    have "sval nbits (clear nbits) = 0" by (simp add: sval_def)
    with lt_val [OF wa wf_clear [OF n]] sval_nonneg_iff [OF n, of a] show ?thesis
      by (auto simp: na_def)
  qed
  show ?thesis
  proof (cases "ua < ub")
    case True
    have "idiv strict nbits a b = Inr (setzero nbits, a)"
      using True b0 by (simp add: idiv_def sa sb abs_a abs_b a1 b1 cmp)
    moreover have "int (val a) mod 2 ^ nbits = ((if na then - 1 else 1) * int ua) mod 2 ^ nbits"
    proof (cases na)
      case True
      then have "int ua = 2 ^ nbits - int (val a)"
        using ia by (simp add: ua_def of_nat_diff)
      with True show ?thesis by (simp add: mod_simps)
    next
      case False
      then show ?thesis by (simp add: ua_def)
    qed
    moreover have "int (val a) mod 2 ^ nbits = int (val a)"
      using int_lt_pow2 [OF ia] by (intro mod_pos_pos_trivial) simp_all
    ultimately show ?thesis using True wa n by (simp add: setzero_def)
  next
    case False
    then have ge: "ub \<le> ua" by simp
    with ub_pos have ua_nz: "val a1 \<noteq> 0" "val b1 \<noteq> 0" by (simp_all add: a1(3) b1(3))
    from findMsb_correct [OF a1(2)] ua_nz obtain ma where
      ma: "findMsb (Suc nbits) a1 = int ma" "2 ^ ma \<le> ua" "ua < 2 ^ Suc ma"
      by (auto simp: a1(3))
    from findMsb_correct [OF b1(2)] ua_nz obtain mb where
      mb: "findMsb (Suc nbits) b1 = int mb" "2 ^ mb \<le> ub" "ub < 2 ^ Suc mb"
      by (auto simp: b1(3))
    have l: "(2 :: nat) ^ mb < 2 ^ Suc ma" using mb(2) ge ma(3) by linarith
    have "mb < Suc ma" using power_less_imp_less_exp [OF _ l] by simp
    then have mle: "mb \<le> ma" by (simp only: less_Suc_eq_le)
    have "(2 :: nat) ^ ma \<le> 2 ^ (nbits - 1)" using ma(2) ua_le by (rule le_trans)
    then have man: "ma \<le> nbits - 1" by simp
    define sh where "sh = ma - mb"
    have shift: "int ma - int mb = int sh" using mle by (simp add: sh_def)
    have "Suc ma = Suc mb + sh" using mle by (simp add: sh_def)
    then have pw: "(2 :: nat) ^ Suc ma = 2 ^ Suc mb * 2 ^ sh" by (simp only: power_add)
    have "ub * 2 ^ sh < 2 ^ Suc mb * 2 ^ sh" using mb(3) by simp
    then have ubs: "ub * 2 ^ sh < 2 ^ Suc ma" unfolding pw .
    have "(2 :: nat) ^ Suc ma \<le> 2 ^ nbits" using man n by (intro power_increasing) simp_all
    with ubs have ubn: "ub * 2 ^ sh < 2 ^ nbits" by (rule less_le_trans)
    obtain sub where sub: "shl_assign (Suc nbits) b1 (int sh) = Inr sub" "wf (Suc nbits) sub"
      "val sub = ub * 2 ^ sh"
    proof (cases "sh = 0")
      case True
      with b1 that show ?thesis by simp
    next
      case False
      with shl_assign_val [OF b1(2), of "int sh"] obtain r where
        "shl_assign (Suc nbits) b1 (int sh) = Inr r" "wf (Suc nbits) r"
        "val r = (ub * 2 ^ sh) mod 2 ^ Suc nbits" by (auto simp: b1(3))
      moreover have "ub * 2 ^ sh < 2 ^ Suc nbits" using ubn by simp
      ultimately show ?thesis using that by simp
    qed
    have c1: "Suc sh \<le> nbits" using man n by (simp add: sh_def)
    have c2: "ub * 2 ^ Suc sh < 2 * 2 ^ nbits" using ubn by simp
    have c3: "val sub = (ub * 2 ^ Suc sh) div 2" by (simp add: sub(3))
    have "Suc ma = mb + Suc sh" using mle by (simp add: sh_def)
    then have "(2 :: nat) ^ Suc ma = 2 ^ mb * 2 ^ Suc sh" by (simp only: power_add)
    moreover have "(2 :: nat) ^ mb * 2 ^ Suc sh \<le> ub * 2 ^ Suc sh"
      using mb(2) by (rule mult_le_mono1)
    ultimately have "ua < ub * 2 ^ Suc sh" using ma(3) by linarith
    then have c4: "val a1 < ub * 2 ^ Suc sh" by (simp add: a1(3))
    have c5: "val a1 < 2 ^ nbits" using ua_lt by (simp add: a1(3))
    from idiv_loop_correct [OF a1(2) sub(2) n c1 ub_pos c2 c3 c4 c5] obtain acc' sub' q where
      lp: "idiv_loop nbits (Suc sh) (a1, sub, setzero nbits) = Inr (acc', sub', q)"
      "wf (Suc nbits) acc'" "wf nbits q" "val q = ua div ub" "val acc' = ua mod ub"
      by (auto simp: a1(3))
    have "ua div ub \<le> ua" by simp
    then have ql: "val q < 2 ^ nbits" unfolding lp(4) using ua_lt by (rule le_less_trans)
    have "ua mod ub \<le> ua" by simp
    then have "ua mod ub < 2 ^ nbits" using ua_lt by (rule le_less_trans)
    then have rl: "val acc' < 2 ^ Suc nbits" unfolding lp(5) by simp
    from signed_result [OF lp(3) ql, of "na \<noteq> nb"] obtain q' where
      q': "(if na \<noteq> nb then negate nbits q else Inr q) = Inr q'" "wf nbits q'"
      "int (val q') = ((if na \<noteq> nb then - 1 else 1) * int (ua div ub)) mod 2 ^ nbits"
      by (auto simp: lp(4))
    from signed_result [OF lp(2) rl, of na] obtain r1 where
      r1: "(if na then negate (Suc nbits) acc' else Inr acc') = Inr r1" "wf (Suc nbits) r1"
      "int (val r1) = ((if na then - 1 else 1) * int (ua mod ub)) mod 2 ^ Suc nbits"
      by (auto simp: lp(5))
    from integer_from_val [OF r1(2) n, of ] obtain r where
      r: "integer_from nbits (Suc nbits) r1 = Inr r" "wf nbits r" "val r = take_bit nbits (val r1)"
      by auto
    have "int (val r) = int (val r1) mod 2 ^ nbits"
      unfolding r(3) by (simp add: take_bit_eq_mod zmod_int)
    also have "\<dots> = ((if na then - 1 else 1) * int (ua mod ub)) mod 2 ^ nbits"
      unfolding r1(3) by (simp add: mod_mod_cancel)
    finally have rv: "int (val r)
        = ((if na then - 1 else 1) * int (ua mod ub)) mod 2 ^ nbits" .
    have rem: "(if na then bindE (negate (nbits + 1) acc') (integer_from nbits (nbits + 1))
                else integer_from nbits (nbits + 1) acc') = Inr r"
      using r1(1) r(1) by (cases na) (auto simp: bindE_eq_Inr)
    have qf: "bindE (integer_of nbits 1)
                (\<lambda>one. Inr (add_assign nbits (flip nbits q) one)) = Inr q'" if "na \<noteq> nb"
      using q'(1) that by (simp add: negate_def)
    have qe: "q = q'" if "na = nb"
      using q'(1) that by simp
    have cnt: "nat (int sh + 1) = Suc sh" by simp
    have "idiv strict nbits a b = Inr (q', r)"
      using False b0 qe
      by (simp add: idiv_def sa sb abs_a abs_b a1 b1 cmp ma mb shift sub cnt lp z qf rem
          Let_def)
    with q' r rv show ?thesis by auto
  qed
qed

lemma sval_unique:
  assumes "0 < nbits" "- (2 ^ (nbits - 1)) \<le> s" "s < 2 ^ (nbits - 1)"
    and "int (val x) mod 2 ^ nbits = s mod 2 ^ nbits"
  shows "sval nbits x = s"
proof -
  have p: "(2 :: int) ^ nbits = 2 * 2 ^ (nbits - 1)" using assms(1) by (cases nbits) simp_all
  define v where "v = int (val x) mod 2 ^ nbits"
  have v: "v = int (val x mod 2 ^ nbits)" by (simp add: v_def zmod_int)
  have vs: "v = s mod 2 ^ nbits" using assms(4) by (simp add: v_def)
  show ?thesis
  proof (cases "0 \<le> s")
    case True
    have "0 < (2 :: int) ^ (nbits - 1)" by simp
    then have "s < 2 ^ nbits" using assms(3) unfolding p by linarith
    with True have "s mod 2 ^ nbits = s" by (intro mod_pos_pos_trivial)
    with vs have e: "int (val x mod 2 ^ nbits) = s" using v by simp
    with assms(3) have "int (val x mod 2 ^ nbits) < 2 ^ (nbits - 1)" by simp
    then have "val x mod 2 ^ nbits < 2 ^ (nbits - 1)"
      by (metis of_nat_less_iff of_nat_numeral of_nat_power)
    with e show ?thesis by (simp add: sval_def)
  next
    case False
    have "0 \<le> s + 2 ^ nbits" "s + 2 ^ nbits < 2 ^ nbits"
      using False assms(2) unfolding p by linarith+
    then have "(s + 2 ^ nbits) mod 2 ^ nbits = s + 2 ^ nbits"
      by (rule mod_pos_pos_trivial)
    then have "s mod 2 ^ nbits = s + 2 ^ nbits" by simp
    with vs have e: "int (val x mod 2 ^ nbits) = s + 2 ^ nbits" using v by simp
    have "\<not> int (val x mod 2 ^ nbits) < 2 ^ (nbits - 1)"
      unfolding e using assms(2) unfolding p by linarith
    then have "\<not> val x mod 2 ^ nbits < 2 ^ (nbits - 1)"
      by (metis of_nat_less_iff of_nat_numeral of_nat_power)
    with e show ?thesis by (simp add: sval_def)
  qed
qed

lemma sval_magnitude:
  assumes "0 < nbits" "val a < 2 ^ nbits"
  shows "sval nbits a = (if bit (val a) (nbits - 1) then - 1 else 1)
           * int (if bit (val a) (nbits - 1) then 2 ^ nbits - val a else val a)"
proof -
  note sb = sign_bit_ge [OF assms]
  have m: "val a mod 2 ^ nbits = val a" using assms(2) by simp
  show ?thesis
  proof (cases "bit (val a) (nbits - 1)")
    case True
    with sb have "\<not> val a < 2 ^ (nbits - 1)" by simp
    with True assms(2) show ?thesis by (simp add: sval_def m of_nat_diff)
  next
    case False
    with sb have "val a < 2 ^ (nbits - 1)" by simp
    with False show ?thesis by (simp add: sval_def m)
  qed
qed

lemma sval_cong: "sval nbits x mod 2 ^ nbits = int (val x) mod 2 ^ nbits"
proof -
  have "(int (val x mod 2 ^ nbits) - 2 ^ nbits) mod 2 ^ nbits = int (val x) mod 2 ^ nbits"
    by (simp add: zmod_int mod_simps)
  moreover have "int (val x mod 2 ^ nbits) mod 2 ^ nbits = int (val x) mod 2 ^ nbits"
    by (simp add: zmod_int)
  ultimately show ?thesis by (simp only: sval_def split: if_split) simp
qed

subsection \<open>Decimal digits\<close>

lemma magnitude_append: "magnitude (xs @ ys) = magnitude xs + 10 ^ length xs * magnitude ys"
  by (induction xs) (simp_all add: algebra_simps)

lemma magnitude_replicate_0 [simp]: "magnitude (replicate n 0) = 0"
  by (induction n) simp_all

lemma unat_lt_10: "(d :: u8) < 10 \<longleftrightarrow> unat d < 10"
  by (simp add: word_less_nat_alt)

lemma magnitude_lt: "list_all (\<lambda>d. d < 10) ds \<Longrightarrow> magnitude ds < 10 ^ length ds"
proof (induction ds)
  case Nil
  then show ?case by simp
next
  case (Cons d ds)
  then have "unat d < 10" "magnitude ds < 10 ^ length ds" by (simp_all add: unat_lt_10)
  then have "unat d + 10 * magnitude ds < 10 + 10 * magnitude ds" "Suc (magnitude ds) \<le> 10 ^ length ds"
    by simp_all
  then have "unat d + 10 * magnitude ds < 10 * Suc (magnitude ds)" "10 * Suc (magnitude ds) \<le> 10 * 10 ^ length ds"
    by simp_all
  then show ?case by simp
qed

lemma digit_sum:
  assumes "unat (l :: u8) < 10" "unat (r :: u8) < 10" "unat (c :: u8) \<le> 1"
  shows "unat (l + (r + c)) = unat l + unat r + unat c"
proof -
  have "unat (r + c) = unat r + unat c"
    using assms by (intro unat_add_lem [THEN iffD1]) simp
  moreover have "unat (l + (r + c)) = unat l + unat (r + c)"
    using assms calculation by (intro unat_add_lem [THEN iffD1]) simp
  ultimately show ?thesis by simp
qed

lemma carry_cases: "unat (c :: u8) \<le> Suc 0 \<Longrightarrow> c = 0 \<or> c = 1"
proof -
  assume "unat c \<le> Suc 0"
  then have "unat c = 0 \<or> unat c = unat (1 :: u8)" by auto
  then show ?thesis by (simp only: unat_eq_0 flip: word_unat_eq_iff)
qed

lemma add_digits_props:
  "length xs = length ys \<Longrightarrow> list_all (\<lambda>d. d < 10) xs \<Longrightarrow> list_all (\<lambda>d. d < 10) ys \<Longrightarrow>
   unat c \<le> 1 \<Longrightarrow>
   list_all (\<lambda>d. d < 10) (add_digits c xs ys)
   \<and> magnitude (add_digits c xs ys) = magnitude xs + magnitude ys + unat c
   \<and> (length (add_digits c xs ys) = length xs
       \<or> length (add_digits c xs ys) = Suc (length xs)
          \<and> 10 ^ length xs \<le> magnitude (add_digits c xs ys))"
proof (induction c xs ys rule: add_digits.induct)
  case (1 carry l ls r rs)
  define l' where "l' = l + (r + carry)"
  have lr: "unat l < 10" "unat r < 10" using "1.prems" by (simp_all add: unat_lt_10)
  have u: "unat l' = unat l + unat r + unat carry"
    unfolding l'_def using lr "1.prems"(4) by (rule digit_sum)
  have gt: "(l' > 9) = (9 < unat l')" by (simp add: word_less_nat_alt)
  have pre: "length ls = length rs" "list_all (\<lambda>d. d < 10) ls" "list_all (\<lambda>d. d < 10) rs"
    using "1.prems" by simp_all
  show ?case
  proof (cases "l' > 9")
    case True
    have sub: "unat (l' - 10) = unat l' - 10"
      using True gt by (simp add: unat_sub word_le_nat_alt)
    have one: "unat (1 :: u8) \<le> 1" by simp
    from "1.IH"(1) [OF l'_def True pre one] have ih:
      "list_all (\<lambda>d. d < 10) (add_digits 1 ls rs)"
      "magnitude (add_digits 1 ls rs) = magnitude ls + magnitude rs + unat (1 :: u8)"
      "length (add_digits 1 ls rs) = length ls
       \<or> length (add_digits 1 ls rs) = Suc (length ls)
          \<and> 10 ^ length ls \<le> magnitude (add_digits 1 ls rs)"
      by blast+
    have e: "add_digits carry (l # ls) (r # rs) = (l' - 10) # add_digits 1 ls rs"
      using True by (simp add: l'_def Let_def)
    have d: "l' - 10 < 10" using sub u lr "1.prems"(4) by (simp add: unat_lt_10)
    have m: "magnitude ((l' - 10) # add_digits 1 ls rs)
        = magnitude (l # ls) + magnitude (r # rs) + unat carry"
      using True gt sub u ih(2) by simp
    from ih(3) have "length ((l' - 10) # add_digits 1 ls rs) = length (l # ls)
       \<or> length ((l' - 10) # add_digits 1 ls rs) = Suc (length (l # ls))
          \<and> 10 ^ length (l # ls) \<le> magnitude ((l' - 10) # add_digits 1 ls rs)"
      by auto
    with d m ih(1) show ?thesis unfolding e by simp
  next
    case False
    have zero: "unat (0 :: u8) \<le> 1" by simp
    from "1.IH"(2) [OF l'_def False pre zero] have ih:
      "list_all (\<lambda>d. d < 10) (add_digits 0 ls rs)"
      "magnitude (add_digits 0 ls rs) = magnitude ls + magnitude rs + unat (0 :: u8)"
      "length (add_digits 0 ls rs) = length ls
       \<or> length (add_digits 0 ls rs) = Suc (length ls)
          \<and> 10 ^ length ls \<le> magnitude (add_digits 0 ls rs)"
      by blast+
    have e: "add_digits carry (l # ls) (r # rs) = l' # add_digits 0 ls rs"
      using False by (simp add: l'_def Let_def)
    have d: "l' < 10" using False gt by (simp add: unat_lt_10)
    have m: "magnitude (l' # add_digits 0 ls rs)
        = magnitude (l # ls) + magnitude (r # rs) + unat carry"
      using u ih(2) by simp
    from ih(3) have "length (l' # add_digits 0 ls rs) = length (l # ls)
       \<or> length (l' # add_digits 0 ls rs) = Suc (length (l # ls))
          \<and> 10 ^ length (l # ls) \<le> magnitude (l' # add_digits 0 ls rs)"
      by auto
    with d m ih(1) show ?thesis unfolding e by simp
  qed
qed (auto dest!: carry_cases)

lemma normal_nonzero:
  assumes "normal ds" "magnitude ds \<noteq> 0"
  shows "10 ^ (length ds - 1) \<le> magnitude ds"
  using assms by (auto simp: normal_def)

lemma add_decimal_normal:
  assumes s: "dsign x = dsign y" and nx: "normal (digits x)" and ny: "normal (digits y)"
    and nz: "magnitude (digits y) \<noteq> 0"
  shows "dsign (add_decimal x y) = dsign x \<and> normal (digits (add_decimal x y))
         \<and> magnitude (digits (add_decimal x y)) = magnitude (digits x) + magnitude (digits y)"
proof -
  define l where "l = length (digits x)"
  define r where "r = length (digits y)"
  define ld where "ld = (if l < r then digits x @ replicate (r - l) 0 else digits x)"
  define rd where "rd = (if l < r then digits y else digits y @ replicate (l - r) 0)"
  define n where "n = max l r"
  define z where "z = add_digits 0 ld rd"
  have e: "add_decimal x y = x\<lparr>digits := z\<rparr>"
    using s by (subst add_decimal.simps) (simp add: Let_def l_def r_def ld_def rd_def z_def)
  have len: "length ld = n" "length rd = n"
    by (auto simp: ld_def rd_def n_def l_def r_def max_def)
  have all: "list_all (\<lambda>d. d < 10) ld" "list_all (\<lambda>d. d < 10) rd"
    using nx ny by (auto simp: ld_def rd_def normal_def list_all_iff)
  have mag: "magnitude ld = magnitude (digits x)" "magnitude rd = magnitude (digits y)"
    by (simp_all add: ld_def rd_def magnitude_append)
  have pos: "0 < l" "0 < r" using nx ny by (simp_all add: normal_def l_def r_def)
  have "length ld = length rd" using len by simp
  moreover have "unat (0 :: u8) \<le> 1" by simp
  ultimately have
    "list_all (\<lambda>d. d < 10) z
     \<and> magnitude z = magnitude (digits x) + magnitude (digits y) + unat (0 :: u8)
     \<and> (length z = n \<or> length z = Suc n \<and> 10 ^ n \<le> magnitude z)"
    using add_digits_props [of ld rd 0] all unfolding z_def mag len by blast
  then have
    za: "list_all (\<lambda>d. d < 10) z"
    and zm0: "magnitude z = magnitude (digits x) + magnitude (digits y) + unat (0 :: u8)"
    and zl: "length z = n \<or> length z = Suc n \<and> 10 ^ n \<le> magnitude z"
    by blast+
  from zm0 have zm: "magnitude z = magnitude (digits x) + magnitude (digits y)" by simp
  have big: "10 ^ (n - 1) \<le> magnitude z"
  proof (cases "l \<le> r")
    case True
    then have "n = r" by (simp add: n_def)
    with normal_nonzero [OF ny nz] show ?thesis by (simp add: zm r_def)
  next
    case False
    then have "n = l" "2 \<le> l" using pos by (simp_all add: n_def)
    then have "digits x \<noteq> [0]" by (auto simp: l_def)
    with nx have "10 ^ (l - 1) \<le> magnitude (digits x)" by (simp add: normal_def l_def)
    with \<open>n = l\<close> show ?thesis by (simp add: zm)
  qed
  have "z \<noteq> []" using zl pos by (auto simp: n_def)
  moreover have "10 ^ (length z - 1) \<le> magnitude z"
    using zl big by auto
  ultimately have "normal z" using za by (simp add: normal_def)
  with zm show ?thesis by (simp add: e)
qed

lemma render_loop:
  assumes "wf nbits number"
  defines "body \<equiv> (\<lambda>i (partial, multiplier).
                    bindE (at nbits number i) (\<lambda>bit.
                    Inr (if bit then add_decimal partial multiplier else partial,
                         add_decimal multiplier multiplier)))"
  shows "\<exists>partial multiplier.
           for_up 0 nbits body (\<lparr>digits = [0], dsign = False\<rparr>, \<lparr>digits = [1], dsign = False\<rparr>)
             = Inr (partial, multiplier)
           \<and> normal (digits partial)
           \<and> magnitude (digits partial) = val number mod 2 ^ nbits"
proof -
  define P where "P i st \<longleftrightarrow> (case st of (p :: decimal, m :: decimal) \<Rightarrow>
      dsign p = False \<and> dsign m = False \<and> normal (digits p) \<and> normal (digits m)
      \<and> magnitude (digits p) = take_bit i (val number) \<and> magnitude (digits m) = 2 ^ i)" for i st
  have "\<exists>t. for_up 0 nbits body (\<lparr>digits = [0], dsign = False\<rparr>, \<lparr>digits = [1], dsign = False\<rparr>)
             = Inr t \<and> P nbits t"
  proof (rule for_up_inv)
    show "P 0 (\<lparr>digits = [0], dsign = False\<rparr>, \<lparr>digits = [1], dsign = False\<rparr>)"
      by (simp add: P_def normal_def)
    show "0 \<le> nbits" by simp
    show "\<exists>t'. body j t = Inr t' \<and> P (Suc j) t'" if "0 \<le> j" "j < nbits" "P j t" for j t
    proof -
      obtain p m where t: "t = (p, m)" by (cases t)
      from that(3) have sp: "dsign p = False" and sm: "dsign m = False"
        and np: "normal (digits p)" and nm: "normal (digits m)"
        and mp: "magnitude (digits p) = take_bit j (val number)"
        and mm: "magnitude (digits m) = 2 ^ j"
        by (simp_all add: P_def t)
      have nz: "magnitude (digits m) \<noteq> 0" by (simp add: mm)
      have a: "at nbits number j = Inr (bit (val number) j)"
        by (rule at_bit [OF assms(1) that(2)])
      define p' where "p' = (if bit (val number) j then add_decimal p m else p)"
      define m' where "m' = add_decimal m m"
      have b: "body j t = Inr (p', m')"
        by (simp add: body_def t a p'_def m'_def)
      from add_decimal_normal [OF _ nm nm nz] have m': "dsign m' = False" "normal (digits m')"
        "magnitude (digits m') = 2 ^ Suc j"
        by (simp_all add: m'_def sm mm)
      have tb: "take_bit (Suc j) (val number)
                 = 2 ^ j * of_bool (bit (val number) j) + take_bit j (val number)"
        by (rule take_bit_Suc_from_most)
      have p': "dsign p' = False \<and> normal (digits p')
                \<and> magnitude (digits p') = take_bit (Suc j) (val number)"
      proof (cases "bit (val number) j")
        case True
        with add_decimal_normal [OF _ np nm nz] sp sm show ?thesis
          unfolding tb by (simp add: p'_def mp mm)
      next
        case False
        with sp np mp show ?thesis unfolding tb by (simp add: p'_def)
      qed
      with b m' show ?thesis by (simp add: P_def)
    qed
  qed
  then show ?thesis by (auto simp: P_def take_bit_eq_mod)
qed

subsection \<open>Digit characters\<close>

lemma lt_10_cases: "n < 10 \<Longrightarrow> n \<in> set [0, 1, 2, 3, 4, 5, 6, 7, 8, 9 :: nat]"
proof -
  assume "n < 10"
  then have "n \<in> set [0 ..< 10]" by simp
  moreover have "[0 ..< 10] = [0, 1, 2, 3, 4, 5, 6, 7, 8, 9 :: nat]" by code_simp
  ultimately show ?thesis by (simp only:)
qed

lemma charLookup_digit: "n < 10 \<Longrightarrow> charLookup_at (digit_char n) = Inr (int n)"
  by (drule lt_10_cases) (auto simp: charLookup_at_def charLookup_def digit_char_def)

lemma digit_char_decimal: "n < 10 \<Longrightarrow> digit_char n \<in> set ''0123456789''"
  by (drule lt_10_cases) (auto simp: digit_char_def)

lemma digit_char_zero: "n < 10 \<Longrightarrow> digit_char n = CHR ''0'' \<Longrightarrow> n = 0"
  by (drule lt_10_cases) (auto simp: digit_char_def)

lemma digit_char_not_x: "n < 10 \<Longrightarrow> digit_char n \<noteq> CHR ''x'' \<and> digit_char n \<noteq> CHR ''X''"
  by (drule lt_10_cases) (auto simp: digit_char_def)

lemma string_of_digit: "n < 10 \<Longrightarrow> string_of_nat n = [digit_char n]"
  by (subst string_of_nat.simps) simp

lemma digits_string:
  "list_all (\<lambda>d. d < 10) (ds :: u8 list) \<Longrightarrow>
   concat (map (\<lambda>d. string_of_nat (unat d)) ds) = map (\<lambda>d. digit_char (unat d)) ds"
proof (induction ds)
  case Nil
  then show ?case by simp
next
  case (Cons d ds)
  then have "d < 10" by simp
  then have "unat d < 10" by (rule unat_lt_10 [THEN iffD1])
  then have "string_of_nat (unat d) = [digit_char (unat d)]" by (rule string_of_digit)
  with Cons show ?case by simp
qed

subsection \<open>Decimal parsing\<close>

lemma integer_of_digit:
  assumes "0 < nbits" "n < 2 ^ 63"
  shows "\<exists>r. integer_of nbits (int n) = Inr r \<and> wf nbits r \<and> val r = n mod 2 ^ nbits"
proof -
  have "int n < 2 ^ 63" using assms(2) by (rule int_lt_pow2)
  from integer_of_nonneg [OF assms(1) _ this] obtain r where
    r: "integer_of nbits (int n) = Inr r" "wf nbits r" "int (val r) = int n mod 2 ^ nbits"
    by auto
  from r(3) have "int (val r) = int (n mod 2 ^ nbits)" by (simp add: zmod_int)
  then have "val r = n mod 2 ^ nbits" by (simp only: of_nat_eq_iff)
  with r show ?thesis by blast
qed

lemma mod_inner: "(x + (y mod m) * z) mod m = (x + y * z) mod (m :: nat)"
  by (metis mod_add_right_eq mod_mult_left_eq)

lemma decimal_loop_val:
  assumes n: "0 < nbits"
  shows "wf nbits v \<Longrightarrow> val v < 2 ^ nbits \<Longrightarrow> wf nbits scale \<Longrightarrow>
         list_all (\<lambda>d. d < 10) (ds :: u8 list) \<Longrightarrow>
         \<exists>v' scale'. decimal_loop nbits (map (\<lambda>d. digit_char (unat d)) ds) (v, scale)
                        = Inr (v', scale')
           \<and> wf nbits v' \<and> val v' = (val v + val scale * magnitude ds) mod 2 ^ nbits"
proof (induction ds arbitrary: v scale)
  case Nil
  then show ?case by simp
next
  case (Cons d ds)
  then have d: "unat d < 10" and all: "list_all (\<lambda>d. d < 10) ds"
    by (simp_all add: unat_lt_10)
  have c: "charLookup_at (digit_char (unat d)) = Inr (int (unat d))"
    using d by (rule charLookup_digit)
  from integer_of_digit [OF n, of "unat d"] d obtain digit where
    digit: "integer_of nbits (int (unat d)) = Inr digit" "wf nbits digit"
    "val digit = unat d mod 2 ^ nbits" by auto
  from integer_of_digit [OF n, of 10] obtain ten where
    ten: "integer_of nbits 10 = Inr ten" "wf nbits ten" "val ten = 10 mod 2 ^ nbits" by auto
  from mul_assign_val [OF Cons.prems(3) digit(2)] obtain p where
    p: "mul_assign nbits scale digit = Inr p" "wf nbits p"
    "val p = (val scale * val digit) mod 2 ^ nbits" by blast
  from mul_assign_val [OF Cons.prems(3) ten(2)] obtain scale' where
    s': "mul_assign nbits scale ten = Inr scale'" "wf nbits scale'"
    "val scale' = (val scale * val ten) mod 2 ^ nbits" by blast
  define v1 where "v1 = add_assign nbits v p"
  have v1: "wf nbits v1" "val v1 = (val v + val p) mod 2 ^ nbits"
    using Cons.prems(1) p(2) by (simp_all add: v1_def val_add_assign)
  have "val v1 < 2 ^ nbits" unfolding v1(2) by simp
  from Cons.IH [OF v1(1) this s'(2) all] obtain v' sc where
    r: "decimal_loop nbits (map (\<lambda>d. digit_char (unat d)) ds) (v1, scale') = Inr (v', sc)"
    "wf nbits v'" "val v' = (val v1 + val scale' * magnitude ds) mod 2 ^ nbits" by blast
  have "val v' = (val v1 + (val scale * 10) * magnitude ds) mod 2 ^ nbits"
    unfolding r(3) s'(3) ten(3) by (simp add: mod_simps mod_inner)
  also have "\<dots> = (val v + val scale * unat d + val scale * 10 * magnitude ds) mod 2 ^ nbits"
    unfolding v1(2) p(3) digit(3) by (simp add: mod_simps)
  also have "\<dots> = (val v + val scale * magnitude (d # ds)) mod 2 ^ nbits"
    by (simp add: algebra_simps)
  finally have "val v' = (val v + val scale * magnitude (d # ds)) mod 2 ^ nbits" .
  moreover have "decimal_loop nbits (map (\<lambda>d. digit_char (unat d)) (d # ds)) (v, scale)
      = Inr (v', sc)"
  proof -
    have dg: "integer_of nbits (uint d) = Inr digit" using digit(1) by simp
    have cl: "charLookup_at (digit_char (unat d)) = Inr (uint d)" using c by simp
    show ?thesis using r(1) by (simp add: cl dg ten(1) p(1) s'(1) v1_def)
  qed
  ultimately show ?case using r(2) by blast
qed

lemma normal_last_nonzero:
  assumes "normal ds" "2 \<le> length ds"
  shows "last ds \<noteq> 0"
proof
  assume z: "last ds = 0"
  from assms have ne: "ds \<noteq> []" and n0: "ds \<noteq> [0]" by auto
  have ds: "ds = butlast ds @ [last ds]" using ne by simp
  have "magnitude ds = magnitude (butlast ds @ [last ds])" using ds by simp
  also have "\<dots> = magnitude (butlast ds)" by (simp add: magnitude_append z)
  also have "\<dots> < 10 ^ length (butlast ds)"
    using assms(1) by (intro magnitude_lt) (auto simp: normal_def list_all_iff dest: in_set_butlastD)
  finally have "magnitude ds < 10 ^ (length ds - 1)" by simp
  with assms(1) n0 show False by (simp add: normal_def)
qed

lemma rendered_digits_regex:
  assumes "normal ds"
  defines "s \<equiv> rev (map (\<lambda>d. digit_char (unat d)) ds)"
  shows "decimal_regex s" and "\<not> octal_regex s" and "\<not> hex_regex s"
proof -
  have all: "\<And>d. d \<in> set ds \<Longrightarrow> unat d < 10"
    using assms(1) by (auto simp: normal_def list_all_iff unat_lt_10)
  have ne: "ds \<noteq> []" using assms(1) by (simp add: normal_def)
  show "decimal_regex s"
  proof -
    have "c \<in> set ''0123456789''" if "c \<in> set s" for c
    proof -
      from that obtain d where "d \<in> set ds" "c = digit_char (unat d)" by (auto simp: s_def)
      with all [of d] show ?thesis by (simp only: digit_char_decimal)
    qed
    moreover have "s \<noteq> []" using ne by (simp add: s_def)
    ultimately show ?thesis unfolding decimal_regex_def list_all_iff by blast
  qed
  show "\<not> octal_regex s"
  proof
    assume o: "octal_regex s"
    then obtain c1 cs where s: "s = CHR ''0'' # c1 # cs"
      by (cases s rule: octal_regex.cases) auto
    then have "length s = Suc (Suc (length cs))" by simp
    then have len: "2 \<le> length ds" by (simp add: s_def)
    have "hd s = digit_char (unat (last ds))"
      using ne by (simp add: s_def hd_rev last_map)
    with s have "digit_char (unat (last ds)) = CHR ''0''" by simp
    moreover have "unat (last ds) < 10" using ne by (intro all) simp
    ultimately have "unat (last ds) = 0" by (intro digit_char_zero)
    then have "last ds = 0" by (simp add: unat_eq_0)
    with normal_last_nonzero [OF assms(1) len] show False by simp
  qed
  show "\<not> hex_regex s"
  proof
    assume "hex_regex s"
    then obtain c0 c1 cs where s: "s = c0 # c1 # cs" and x: "c1 = CHR ''x'' \<or> c1 = CHR ''X''"
      by (cases s rule: hex_regex.cases) auto
    then have "c1 \<in> set s" by simp
    then obtain d where "d \<in> set ds" "c1 = digit_char (unat d)" by (auto simp: s_def)
    with all [of d] digit_char_not_x [of "unat d"] x show False by auto
  qed
qed

lemma minus_not_number:
  "\<not> decimal_regex (CHR ''-'' # cs)" "\<not> octal_regex (CHR ''-'' # cs)" "\<not> hex_regex (CHR ''-'' # cs)"
proof -
  show "\<not> decimal_regex (CHR ''-'' # cs)" by (simp add: decimal_regex_def)
  show "\<not> octal_regex (CHR ''-'' # cs)" by (cases cs) simp_all
  show "\<not> hex_regex (CHR ''-'' # cs)" by (cases cs) simp_all
qed

subsection \<open>Hexadecimal parsing\<close>

lemma bindE_assoc: "bindE (bindE m f) g = bindE m (\<lambda>x. bindE (f x) g)"
  by (cases m) simp_all

lemma hex_loop_append:
  "hex_loop nbits (xs @ ys) st = bindE (hex_loop nbits xs st) (hex_loop nbits ys)"
  by (induction nbits xs st rule: hex_loop.induct) (simp_all add: bindE_assoc Let_def)

lemma hex_digit_facts:
  assumes "c \<in> set ''0123456789abcdefABCDEF''"
  shows "c \<noteq> apostrophe" "c \<noteq> CHR ''x''" "c \<noteq> CHR ''X''" "\<exists>n. charLookup_at c = Inr n"
  using assms by (auto simp: apostrophe_def charLookup_at_def charLookup_def)

lemma hex_digits_loop:
  "list_all (\<lambda>c. c \<in> set ''0123456789abcdefABCDEF'' \<or> c = apostrophe) cs \<Longrightarrow>
   bi \<le> nrBytes nbits \<Longrightarrow>
   (bi + (length (filter (\<lambda>c. c \<noteq> apostrophe) cs) + (if od then 1 else 0)) div 2
        \<le> nrBytes nbits \<longrightarrow>
      (\<exists>v' b'. hex_loop nbits cs (v, b, bi, od, ok)
         = Inr (v', b',
                bi + (length (filter (\<lambda>c. c \<noteq> apostrophe) cs) + (if od then 1 else 0)) div 2,
                odd (length (filter (\<lambda>c. c \<noteq> apostrophe) cs) + (if od then 1 else 0)), ok)))
   \<and> (\<not> bi + (length (filter (\<lambda>c. c \<noteq> apostrophe) cs) + (if od then 1 else 0)) div 2
        \<le> nrBytes nbits \<longrightarrow>
      hex_loop nbits cs (v, b, bi, od, ok) = Inl ByteIndexOutOfRange)"
proof (induction cs arbitrary: v b bi od)
  case Nil
  then show ?case by simp
next
  case (Cons c cs)
  define k where "k = length (filter (\<lambda>c. c \<noteq> apostrophe) cs)"
  note pre = Cons.prems
  from pre have all: "list_all (\<lambda>c. c \<in> set ''0123456789abcdefABCDEF'' \<or> c = apostrophe) cs"
      by simp
    define K where "K = length (filter (\<lambda>c. c \<noteq> apostrophe) (c # cs)) + (if od then 1 else 0)"
    have main: "(bi + K div 2 \<le> nrBytes nbits \<longrightarrow>
            (\<exists>v' b'. hex_loop nbits (c # cs) (v, b, bi, od, ok)
                       = Inr (v', b', bi + K div 2, odd K, ok)))
        \<and> (\<not> bi + K div 2 \<le> nrBytes nbits \<longrightarrow>
            hex_loop nbits (c # cs) (v, b, bi, od, ok) = Inl ByteIndexOutOfRange)"
    proof (cases "c = apostrophe")
      case True
      then have step: "hex_loop nbits (c # cs) (v, b, bi, od, ok)
          = hex_loop nbits cs (v, b, bi, od, ok)" by simp
      have K: "K = k + (if od then 1 else 0)" using True by (simp add: K_def k_def)
      show ?thesis
        unfolding step K
        using Cons.IH [OF all pre(2), of od v b]
        by (simp add: k_def)
    next
      case False
      with pre(1) have hx: "c \<in> set ''0123456789abcdefABCDEF''" by simp
      from hex_digit_facts [OF hx] obtain n where
        c: "c \<noteq> CHR ''x''" "c \<noteq> CHR ''X''" "charLookup_at c = Inr n" by blast
      show ?thesis
      proof (cases od)
        case True
        have K: "K = Suc (Suc k)" using False True by (simp add: K_def k_def)
        have d: "K div 2 = Suc (k div 2)" "odd K = odd (k + 0)" by (simp_all add: K)
        show ?thesis
        proof (cases "bi < nrBytes nbits")
          case lt: True
          then have s: "setbyte nbits v bi (word_of_int (b + n * 16))
                         = Inr (v[bi := word_of_int (b + n * 16)])"
            by (simp add: setbyte_def)
          have step: "hex_loop nbits (c # cs) (v, b, bi, od, ok)
              = hex_loop nbits cs (v[bi := word_of_int (b + n * 16)], b + n * 16, Suc bi, False, ok)"
            using False c True s by (simp add: Let_def)
          from lt have sb: "Suc bi \<le> nrBytes nbits" by simp
          have e: "bi + Suc (k div 2) = Suc bi + (k + (if False then 1 else 0)) div 2"
            "odd (k + 0) = odd (k + (if False then 1 else 0))" by simp_all
          show ?thesis
            unfolding step d
            using Cons.IH [OF all sb, of False "v[bi := word_of_int (b + n * 16)]" "b + n * 16"]
            by (simp add: k_def)
        next
          case ge: False
          then have s: "setbyte nbits v bi (word_of_int (b + n * 16)) = Inl ByteIndexOutOfRange"
            by (simp add: setbyte_def)
          have step: "hex_loop nbits (c # cs) (v, b, bi, od, ok) = Inl ByteIndexOutOfRange"
            using False c True s by (simp add: Let_def)
          from ge pre(2) have "\<not> bi + K div 2 \<le> nrBytes nbits" by (simp add: d)
          then show ?thesis unfolding step by simp
        qed
      next
        case od: False
        have K: "K = Suc k" using False od by (simp add: K_def k_def)
        have step: "hex_loop nbits (c # cs) (v, b, bi, od, ok)
            = hex_loop nbits cs (v, n, bi, True, ok)"
          using False c od by simp
        have e: "Suc k = k + (if True then 1 else 0)" by simp
        show ?thesis
          unfolding step K
          using Cons.IH [OF all pre(2), of True v n]
          by (simp add: k_def)
      qed
    qed
  then show ?case unfolding K_def .
qed

lemma hex_parse_result:
  assumes "hex_regex s"
  defines "k \<equiv> length (filter (\<lambda>c. c \<noteq> apostrophe) (drop 2 s))"
  shows "if 2 * nrBytes nbits < k then parse nbits s = Inl ByteIndexOutOfRange
         else \<exists>v. parse nbits s = Inr (True, v)"
proof -
  from assms(1) obtain c1 cs where s: "s = CHR ''0'' # c1 # cs"
    and x: "c1 = CHR ''x'' \<or> c1 = CHR ''X''"
    and all: "list_all (\<lambda>c. c \<in> set ''0123456789abcdefABCDEF'' \<or> c = apostrophe) cs"
    by (cases s rule: hex_regex.cases) auto
  have no: "\<not> octal_regex s" using s x by auto
  have k: "k = length (filter (\<lambda>c. c \<noteq> apostrophe) (rev cs))"
    by (simp add: k_def s flip: rev_filter)
  have rs: "rev s = rev cs @ [c1, CHR ''0'']" by (simp add: s)
  have all': "list_all (\<lambda>c. c \<in> set ''0123456789abcdefABCDEF'' \<or> c = apostrophe) (rev cs)"
    using all by simp
  have z: "CHR ''0'' \<noteq> apostrophe" "CHR ''0'' \<noteq> CHR ''x''" "CHR ''0'' \<noteq> CHR ''X''"
    "charLookup_at CHR ''0'' = Inr 0" "c1 \<noteq> apostrophe"
    using x by (auto simp: apostrophe_def charLookup_at_def charLookup_def)
  have b0: "0 \<le> nrBytes nbits" by simp
  from hex_digits_loop [OF all' b0, of False "clear nbits" 0 False]
  have lp: "k div 2 \<le> nrBytes nbits \<Longrightarrow>
              \<exists>v' b'. hex_loop nbits (rev cs) (clear nbits, 0, 0, False, False)
                         = Inr (v', b', k div 2, odd k, False)"
    "\<not> k div 2 \<le> nrBytes nbits \<Longrightarrow>
       hex_loop nbits (rev cs) (clear nbits, 0, 0, False, False) = Inl ByteIndexOutOfRange"
    unfolding k by simp_all
  have p: "parse nbits s = bindE (bindE (hex_loop nbits (rev cs) (clear nbits, 0, 0, False, False))
                              (hex_loop nbits [c1, CHR ''0'']))
                        (\<lambda>(v', byte_v, byteIndex, odd_v, bSuccess). Inr (bSuccess, v'))"
    using no assms(1) by (simp add: parse_def rs hex_loop_append)
  show ?thesis
  proof (cases "k div 2 \<le> nrBytes nbits")
    case False
    then have "2 * nrBytes nbits < k" by linarith
    moreover from False lp(2) have "hex_loop nbits (rev cs) (clear nbits, 0, 0, False, False)
        = Inl ByteIndexOutOfRange" by simp
    ultimately show ?thesis by (simp add: p)
  next
    case True
    with lp(1) obtain v' b' where
      l: "hex_loop nbits (rev cs) (clear nbits, 0, 0, False, False)
            = Inr (v', b', k div 2, odd k, False)" by auto
    show ?thesis
    proof (cases "odd k")
      case ev: False
      then have "\<not> 2 * nrBytes nbits < k" using True by presburger
      moreover have "parse nbits s = Inr (True, v')"
        using ev x z by (auto simp: p l)
      ultimately show ?thesis by simp
    next
      case od: True
      show ?thesis
      proof (cases "k div 2 < nrBytes nbits")
        case lt: True
        then have "\<not> 2 * nrBytes nbits < k" by linarith
        moreover have "\<exists>v. parse nbits s = Inr (True, v)"
          using od x z lt by (auto simp: p l setbyte_def)
        ultimately show ?thesis by simp
      next
        case False
        then have "2 * nrBytes nbits < k" using od True by presburger
        moreover have "parse nbits s = Inl ByteIndexOutOfRange"
          using od x z False by (auto simp: p l setbyte_def)
        ultimately show ?thesis by simp
      qed
    qed
  qed
qed

section \<open>Bit storage: the masked top byte\<close>

text \<open>
  C3 (invariant I1 after every public mutator, \<^verbatim>\<open>setbyte\<close> included). \<^verbatim>\<open>setbyte\<close> stores the
  byte as given and does not apply \<^verbatim>\<open>MS_BYTE_MASK\<close>: on a zero \<^verbatim>\<open>integer<4>\<close>,
  \<^verbatim>\<open>setbyte(0, 0xFF)\<close> returns with the storage bits 4 to 7 set, where \<^verbatim>\<open>set_raw_bits(0xFF)\<close>
  leaves \<^verbatim>\<open>0x0F\<close>. The same unmasked byte is what \<^verbatim>\<open>parse\<close> leaves in an \<^verbatim>\<open>integer<4>\<close> for
  \<^verbatim>\<open>"0xFF"\<close>, since it fills the storage through \<^verbatim>\<open>setbyte\<close>.
\<close>

theorem setbyte_breaks_I1:
  "setbyte 4 (clear 4) 0 0xFF = Inr [0xFF] \<and> \<not> I1 4 [0xFF]
   \<and> set_raw_bits 4 0xFF = [0x0F] \<and> I1 4 [0x0F]
   \<and> parse 4 ''0xFF'' = Inr (True, [0xFF])"
  by code_simp

section \<open>Decimal digits: \<^verbatim>\<open>unpad\<close>\<close>

text \<open>
  C4 (\<^verbatim>\<open>unpad\<close> removes only high-end zeros and keeps the magnitude). The loop tests the
  digit at index \<open>i\<close> but removes the last one: on the digits of 201 (least significant
  first \<open>[1, 0, 2]\<close>) the zero at index 1 pops the digit 2, leaving \<open>[1, 0]\<close>, magnitude 1.
\<close>

theorem unpad_drops_nonzero_digit:
  "digits (unpad \<lparr>digits = [1, 0, 2], dsign = False\<rparr>) = [1, 0]
   \<and> magnitude [1, 0, 2] = 201 \<and> magnitude [1, 0] = 1"
  by code_simp

section \<open>Division by zero\<close>

text \<open>
  C9. With \<^verbatim>\<open>INTEGER_THROW_ARITHMETIC_EXCEPTION\<close> on, \<^verbatim>\<open>idiv\<close>, \<^verbatim>\<open>divide\<close> and \<^verbatim>\<open>remainder\<close>
  called with the zero value as divisor throw \<^verbatim>\<open>integer_divide_by_zero\<close>, whatever the
  dividend: none of them returns a quotient or a remainder.
\<close>

theorem zero_divisor_signals_DivideByZero:
  "idiv True nbits a (setzero nbits) = Inl DivideByZero
   \<and> divide_i True nbits a (setzero nbits) = Inl DivideByZero
   \<and> remainder True nbits a (setzero nbits) = Inl DivideByZero"
  by (simp add: idiv_def divide_i_def remainder_def setzero_def)

section \<open>Parsing: failures and exceptions\<close>

text \<open>
  C10. There are strings of the hexadecimal form \<^verbatim>\<open>0[xX][0-9a-fA-F']+\<close> on which \<^verbatim>\<open>parse\<close>
  returns no flag at all: \<^verbatim>\<open>"0x1FF"\<close> into an \<^verbatim>\<open>integer<8>\<close> reaches \<^verbatim>\<open>setbyte(1, 1)\<close> with
  one storage byte, which throws \<^verbatim>\<open>integer_byte_index_out_of_bounds\<close>. In general a string of
  that form makes \<^verbatim>\<open>parse\<close> throw exactly when it has more than two hexadecimal digits per
  storage byte (apostrophes not counted); otherwise \<^verbatim>\<open>parse\<close> returns \<^verbatim>\<open>true\<close>.
\<close>

theorem hex_parse_throws:
  "hex_regex ''0x1FF'' \<and> parse 8 ''0x1FF'' = Inl ByteIndexOutOfRange
   \<and> (hex_regex s \<and> 2 * nrBytes nbits < length (filter (\<lambda>c. c \<noteq> apostrophe) (drop 2 s))
        \<longrightarrow> parse nbits s = Inl ByteIndexOutOfRange)
   \<and> (hex_regex s \<and> length (filter (\<lambda>c. c \<noteq> apostrophe) (drop 2 s)) \<le> 2 * nrBytes nbits
        \<longrightarrow> (\<exists>v. parse nbits s = Inr (True, v)))"
proof -
  have "hex_regex ''0x1FF'' \<and> parse 8 ''0x1FF'' = Inl ByteIndexOutOfRange" by code_simp
  moreover have "parse nbits s = Inl ByteIndexOutOfRange"
    if "hex_regex s" "2 * nrBytes nbits < length (filter (\<lambda>c. c \<noteq> apostrophe) (drop 2 s))"
    using hex_parse_result [OF that(1), of nbits] that(2) by simp
  moreover have "\<exists>v. parse nbits s = Inr (True, v)"
    if "hex_regex s" "length (filter (\<lambda>c. c \<noteq> apostrophe) (drop 2 s)) \<le> 2 * nrBytes nbits"
    using hex_parse_result [OF that(1), of nbits] that(2) by (simp add: not_less)
  ultimately show ?thesis by blast
qed

theorem hex_parse_throws_witness:
  "hex_regex ''0x1FF'' \<and> 2 * nrBytes 8 < length (filter (\<lambda>c. c \<noteq> apostrophe) (drop 2 ''0x1FF''))
   \<and> parse 8 ''0x1FF'' = Inl ByteIndexOutOfRange
   \<and> hex_regex ''0x1F'' \<and> length (filter (\<lambda>c. c \<noteq> apostrophe) (drop 2 ''0x1F'')) \<le> 2 * nrBytes 8
   \<and> (\<exists>v. parse 8 ''0x1F'' = Inr (True, v)) \<and> parse 8 ''0x1F'' = Inr (True, [0x1F])"
proof -
  have a: "hex_regex ''0x1FF''"
    "2 * nrBytes 8 < length (filter (\<lambda>c. c \<noteq> apostrophe) (drop 2 ''0x1FF''))"
    by code_simp+
  have b: "hex_regex ''0x1F''"
    "length (filter (\<lambda>c. c \<noteq> apostrophe) (drop 2 ''0x1F'')) \<le> 2 * nrBytes 8"
    "parse 8 ''0x1F'' = Inr (True, [0x1F])"
    by code_simp+
  from hex_parse_throws [of "''0x1FF''" 8] a
  have c: "parse 8 ''0x1FF'' = Inl ByteIndexOutOfRange" by blast
  from hex_parse_throws [of "''0x1F''" 8] b(1,2)
  have d: "\<exists>v. parse 8 ''0x1F'' = Inr (True, v)" by blast
  from a b c d show ?thesis by blast
qed

lemma hex_loop_flag:
  "hex_loop nbits cs st = Inr st' \<Longrightarrow>
   snd (snd (snd (snd st))) \<or> CHR ''x'' \<in> set cs \<or> CHR ''X'' \<in> set cs \<Longrightarrow>
   snd (snd (snd (snd st')))"
proof (induction nbits cs st rule: hex_loop.induct)
  case (1 nbits st)
  then show ?case by simp
next
  case (2 nbits c cs v byte_v byteIndex odd_v bSuccess)
  then show ?case
    by (auto simp: bindE_eq_Inr Let_def apostrophe_def split: if_splits)
qed

lemma hex_regex_has_x: "hex_regex s \<Longrightarrow> CHR ''x'' \<in> set (rev s) \<or> CHR ''X'' \<in> set (rev s)"
  by (cases s rule: hex_regex.cases) auto

text \<open>
  C8. Whenever \<^verbatim>\<open>parse\<close> returns \<^verbatim>\<open>false\<close> the target is the cleared (zero) value, and on
  every string matching the octal pattern \<^verbatim>\<open>^0[1-7][0-7]*$\<close> it returns \<^verbatim>\<open>false\<close> with the
  target cleared.
\<close>

theorem parse_failure_leaves_cleared:
  "(\<forall>v. parse nbits s = Inr (False, v) \<longrightarrow> v = clear nbits)
   \<and> (octal_regex s \<longrightarrow> parse nbits s = Inr (False, clear nbits))"
proof (intro conjI allI impI)
  fix v assume p: "parse nbits s = Inr (False, v)"
  show "v = clear nbits"
  proof (cases "octal_regex s")
    case True
    with p show ?thesis by (simp add: parse_def)
  next
    case no: False
    show ?thesis
    proof (cases "hex_regex s")
      case True
      with p no obtain st' where
        h: "hex_loop nbits (rev s) (clear nbits, 0, 0, False, False) = Inr st'"
        and f: "\<not> snd (snd (snd (snd st')))" and "v = fst st'"
        by (auto simp: parse_def bindE_eq_Inr Let_def split: prod.splits)
      from hex_loop_flag [OF h] hex_regex_has_x [OF True] f show ?thesis by simp
    next
      case False
      with p no show ?thesis
        by (auto simp: parse_def bindE_eq_Inr Let_def split: if_splits prod.splits)
    qed
  qed
next
  assume "octal_regex s"
  then show "parse nbits s = Inr (False, clear nbits)" by (simp add: parse_def)
qed

theorem parse_failure_leaves_cleared_witness:
  "parse 8 ''-1'' = Inr (False, clear 8) \<and> octal_regex ''017''
   \<and> parse 8 ''017'' = Inr (False, clear 8)"
proof -
  have a: "parse 8 ''-1'' = Inr (False, [0])" by code_simp
  have b: "octal_regex ''017''" by code_simp
  have "[0] = clear 8" using parse_failure_leaves_cleared [of 8 "''-1''"] a by blast
  with a have c: "parse 8 ''-1'' = Inr (False, clear 8)" by (simp only:)
  have d: "parse 8 ''017'' = Inr (False, clear 8)"
    using parse_failure_leaves_cleared [of 8 "''017''"] b by blast
  show ?thesis using b c d by blast
qed

section \<open>Wrap-around arithmetic\<close>

text \<open>
  C6. \<^verbatim>\<open>operator+=\<close> and \<^verbatim>\<open>operator-=\<close> wrap modulo \<open>2 ^ nbits\<close> and do not throw: the sum
  is the sum of the operands modulo \<open>2 ^ nbits\<close>, the difference is returned (never an
  exception) and is the difference modulo \<open>2 ^ nbits\<close>. On \<^verbatim>\<open>integer<8>\<close>, \<open>127 + 1\<close> is the
  value built from \<open>-128\<close>, and \<open>-128 - 1\<close> is \<open>127\<close>.
\<close>

theorem add_sub_wrap:
  "(wf nbits a \<and> wf nbits b \<longrightarrow>
      int (val (add_assign nbits a b)) = (int (val a) + int (val b)) mod 2 ^ nbits
      \<and> (\<exists>r. sub_assign nbits a b = Inr r
               \<and> int (val r) = (int (val a) - int (val b)) mod 2 ^ nbits))
   \<and> (\<exists>x y z. integer_of 8 127 = Inr x \<and> integer_of 8 1 = Inr y \<and> integer_of 8 (- 128) = Inr z
          \<and> sval 8 x = 127 \<and> sval 8 z = - 128
          \<and> add_assign 8 x y = z \<and> sub_assign 8 z y = Inr x)"
proof -
  have "integer_of 8 127 = Inr [127] \<and> integer_of 8 1 = Inr [1] \<and> integer_of 8 (- 128) = Inr [128]
        \<and> sval 8 [127] = 127 \<and> sval 8 [128] = - 128
        \<and> add_assign 8 [127] [1] = [128] \<and> sub_assign 8 [128] [1] = Inr [127]"
    by code_simp
  then have "\<exists>x y z. integer_of 8 127 = Inr x \<and> integer_of 8 1 = Inr y \<and> integer_of 8 (- 128) = Inr z
          \<and> sval 8 x = 127 \<and> sval 8 z = - 128
          \<and> add_assign 8 x y = z \<and> sub_assign 8 z y = Inr x" by blast
  then show ?thesis
    using ival_add_assign [of nbits a b] sub_assign_val [of nbits a b] by blast
qed

theorem add_sub_wrap_witness:
  "wf 8 [200] \<and> wf 8 [100] \<and> val (add_assign 8 [200] [100]) = 44
   \<and> sub_assign 8 [100] [200] = Inr [156]"
proof -
  have w: "wf 8 [200] \<and> wf 8 [100]" by code_simp
  have s: "sub_assign 8 [100] [200] = Inr [156]" by code_simp
  have "int (val (add_assign 8 [200] [100])) = (int (val [200 :: u8]) + int (val [100 :: u8])) mod 2 ^ 8"
    using add_sub_wrap [of 8 "[200]" "[100]"] w by blast
  then have "val (add_assign 8 [200] [100]) = 44" by simp
  with w s show ?thesis by blast
qed

text \<open>
  C5. For every value \<open>a\<close>, \<open>a + (-a)\<close> is the zero value, and the negation of the minimum
  value (only bit \<open>nbits - 1\<close> set) is that value itself.
\<close>

theorem negation_identity:
  "(wf nbits a \<longrightarrow>
      (\<exists>n. negate nbits a = Inr n \<and> add_assign nbits a n = setzero nbits
            \<and> eq (add_assign nbits a n) (setzero nbits)))
   \<and> (0 < nbits \<longrightarrow>
      (\<exists>m. min_int nbits = Inr m \<and> val m = 2 ^ (nbits - 1) \<and> negate nbits m = Inr m))"
proof (intro conjI impI)
  assume a: "wf nbits a"
  from negate_val [OF a] obtain n where
    n: "negate nbits a = Inr n" "wf nbits n" "int (val n) = (- int (val a)) mod 2 ^ nbits"
    by blast
  have "int (val (add_assign nbits a n)) = (int (val a) + (- int (val a)) mod 2 ^ nbits) mod 2 ^ nbits"
    using a n by (simp add: ival_add_assign)
  also have "\<dots> = 0" by (simp add: mod_simps)
  finally have "val (add_assign nbits a n) = 0" by simp
  then have "add_assign nbits a n = clear nbits"
    using a n by (intro val_0_clear) simp_all
  with n(1) show "\<exists>n. negate nbits a = Inr n \<and> add_assign nbits a n = setzero nbits
            \<and> eq (add_assign nbits a n) (setzero nbits)"
    by (simp add: setzero_def)
next
  assume p: "0 < nbits"
  from set_iv_bit [OF wf_clear [OF p], of "nbits - 1" True] p obtain m where
    m: "min_int nbits = Inr m" "wf nbits m" "\<And>k. bit (val m) k \<longleftrightarrow> k = nbits - 1"
    by (auto simp: min_int_def setzero_def)
  have v: "val m = 2 ^ (nbits - 1)"
    by (rule bit_eqI) (simp add: m(3) bit_exp_iff)
  from negate_val [OF m(2)] obtain r where
    r: "negate nbits m = Inr r" "wf nbits r" "int (val r) = (- int (val m)) mod 2 ^ nbits"
    by blast
  have "(2 :: int) ^ nbits = 2 * 2 ^ (nbits - 1)"
    using p by (cases nbits) simp_all
  then have "(- (2 ^ (nbits - 1))) mod 2 ^ nbits = (2 ^ (nbits - 1) :: int)"
    by (simp add: zmod_zminus1_eq_if)
  with r(3) v have "int (val r) = int (val m)" by simp
  then have "r = m" using r(2) m(2) by (intro val_inj) (simp_all add: wf_def)
  with m(1) v r(1) show "\<exists>m. min_int nbits = Inr m \<and> val m = 2 ^ (nbits - 1) \<and> negate nbits m = Inr m"
    by simp
qed

theorem negation_identity_witness:
  "wf 8 [5] \<and> negate 8 [5] = Inr [251] \<and> add_assign 8 [5] [251] = setzero 8
   \<and> min_int 8 = Inr [128] \<and> negate 8 [128] = Inr [128]"
proof -
  have w: "wf 8 [5]" by code_simp
  have e: "negate 8 [5] = Inr [251]" "min_int 8 = Inr [128]" by code_simp+
  from negation_identity [of 8 "[5]"] w e
  have "add_assign 8 [5] [251] = setzero 8" by auto
  moreover from negation_identity [of 8 "[5]"] e have "negate 8 [128] = Inr [128]" by auto
  ultimately show ?thesis using w e by blast
qed

section \<open>Shifts by a signed amount\<close>

text \<open>
  C7. For a shift amount \<open>s\<close> whose negation is a \<^verbatim>\<open>signed\<close> value: a negative \<open>s\<close> makes
  \<^verbatim>\<open>operator<<=\<close> behave as \<^verbatim>\<open>operator>>=\<close> by \<open>-s\<close> and the other way round; an amount
  \<open>s \<ge> nbits\<close> gives the zero value in both directions; \<^verbatim>\<open>operator>>=\<close> by \<open>s > 0\<close>
  moves bit \<open>k + s\<close> to bit \<open>k\<close> and leaves every bit from \<open>nbits - s\<close> up zero, whatever
  the sign bit of the operand was (the result is the unsigned quotient by \<open>2 ^ s\<close>);
  \<^verbatim>\<open>operator<<=\<close> by \<open>s > 0\<close> moves bit \<open>k - s\<close> to bit \<open>k\<close>, leaves the low \<open>s\<close> bits zero and
  drops what leaves the width (the result is the product by \<open>2 ^ s\<close> modulo \<open>2 ^ nbits\<close>).
  So \<^verbatim>\<open>operator>>=\<close> by \<open>s < 0\<close> is that left shift by \<open>-s\<close>, \<^verbatim>\<open>operator<<=\<close> by \<open>s < 0\<close> is
  that right shift by \<open>-s\<close>, and a shift by \<open>0\<close> leaves the value as it is.
\<close>

theorem shift_semantics:
  assumes "wf nbits b" and "- (2 ^ 31) < s" and "s < 2 ^ 31"
  shows "(s < 0 \<longrightarrow> shl_assign nbits b s = shr_assign nbits b (- s)
                  \<and> shr_assign nbits b s = shl_assign nbits b (- s))
       \<and> (int nbits \<le> s \<longrightarrow> shl_assign nbits b s = Inr (clear nbits)
                  \<and> shr_assign nbits b s = Inr (clear nbits))
       \<and> (0 < s \<longrightarrow> (\<exists>r. shr_assign nbits b s = Inr r \<and> wf nbits r
                  \<and> (\<forall>k. bit (val r) k \<longleftrightarrow> k + nat s < nbits \<and> bit (val b) (k + nat s))
                  \<and> val r = (val b mod 2 ^ nbits) div 2 ^ nat s))
       \<and> (0 < s \<longrightarrow> (\<exists>r. shl_assign nbits b s = Inr r \<and> wf nbits r
                  \<and> (\<forall>k. bit (val r) k \<longleftrightarrow> nat s \<le> k \<and> k < nbits \<and> bit (val b) (k - nat s))
                  \<and> val r = (val b * 2 ^ nat s) mod 2 ^ nbits))
       \<and> (s < 0 \<longrightarrow> (\<exists>r. shr_assign nbits b s = Inr r \<and> wf nbits r
                  \<and> (\<forall>k. bit (val r) k \<longleftrightarrow> nat (- s) \<le> k \<and> k < nbits \<and> bit (val b) (k - nat (- s)))
                  \<and> val r = (val b * 2 ^ nat (- s)) mod 2 ^ nbits))
       \<and> (s < 0 \<longrightarrow> (\<exists>r. shl_assign nbits b s = Inr r \<and> wf nbits r
                  \<and> (\<forall>k. bit (val r) k \<longleftrightarrow> k + nat (- s) < nbits \<and> bit (val b) (k + nat (- s)))
                  \<and> val r = (val b mod 2 ^ nbits) div 2 ^ nat (- s)))
       \<and> (s = 0 \<longrightarrow> shl_assign nbits b s = Inr b \<and> shr_assign nbits b s = Inr b)"
proof -
  have right: "\<exists>r. shr_assign nbits b t = Inr r \<and> wf nbits r
      \<and> (\<forall>k. bit (val r) k \<longleftrightarrow> k + nat t < nbits \<and> bit (val b) (k + nat t))
      \<and> val r = (val b mod 2 ^ nbits) div 2 ^ nat t" if t: "0 < t" for t
  proof -
    from shr_assign_bits [OF assms(1) t] obtain r where
      r: "shr_assign nbits b t = Inr r" "wf nbits r"
      "\<And>k. bit (val r) k \<longleftrightarrow> k + nat t < nbits \<and> bit (val b) (k + nat t)" by blast
    from shr_assign_val [OF assms(1) t] r(1)
    have "val r = (val b mod 2 ^ nbits) div 2 ^ nat t" by auto
    with r show ?thesis by blast
  qed
  have left: "\<exists>r. shl_assign nbits b t = Inr r \<and> wf nbits r
      \<and> (\<forall>k. bit (val r) k \<longleftrightarrow> nat t \<le> k \<and> k < nbits \<and> bit (val b) (k - nat t))
      \<and> val r = (val b * 2 ^ nat t) mod 2 ^ nbits" if t: "0 < t" for t
  proof -
    from shl_assign_bits [OF assms(1) t] obtain r where
      r: "shl_assign nbits b t = Inr r" "wf nbits r"
      "\<And>k. bit (val r) k \<longleftrightarrow> nat t \<le> k \<and> k < nbits \<and> bit (val b) (k - nat t)" by blast
    from shl_assign_val [OF assms(1) t] r(1)
    have "val r = (val b * 2 ^ nat t) mod 2 ^ nbits" by auto
    with r show ?thesis by blast
  qed
  have neg: "shl_assign nbits b s = shr_assign nbits b (- s)"
    "shr_assign nbits b s = shl_assign nbits b (- s)" if "s < 0"
    using that by (simp_all add: shl_assign_neg shr_assign_neg)
  have large: "shl_assign nbits b s = Inr (clear nbits)"
    "shr_assign nbits b s = Inr (clear nbits)" if "int nbits \<le> s"
  proof -
    from assms(1) have "0 < nbits" by (rule wf_pos)
    with that have "0 < s" by simp
    with that show "shl_assign nbits b s = Inr (clear nbits)"
      and "shr_assign nbits b s = Inr (clear nbits)"
      by (simp_all add: shl_assign_large shr_assign_large)
  qed
  have negl: "\<exists>r. shr_assign nbits b s = Inr r \<and> wf nbits r
      \<and> (\<forall>k. bit (val r) k \<longleftrightarrow> nat (- s) \<le> k \<and> k < nbits \<and> bit (val b) (k - nat (- s)))
      \<and> val r = (val b * 2 ^ nat (- s)) mod 2 ^ nbits" if "s < 0"
    using left [of "- s"] that neg(2) [OF that] by simp
  have negr: "\<exists>r. shl_assign nbits b s = Inr r \<and> wf nbits r
      \<and> (\<forall>k. bit (val r) k \<longleftrightarrow> k + nat (- s) < nbits \<and> bit (val b) (k + nat (- s)))
      \<and> val r = (val b mod 2 ^ nbits) div 2 ^ nat (- s)" if "s < 0"
    using right [of "- s"] that neg(1) [OF that] by simp
  have zero: "shl_assign nbits b s = Inr b" "shr_assign nbits b s = Inr b" if "s = 0"
    using that by simp_all
  from neg large right [of s] left [of s] negl negr zero show ?thesis by blast
qed

theorem shift_semantics_witness:
  "wf 8 [0x81] \<and> wf 8 [0x01]
   \<and> shl_assign 8 [0x81] (- 1) = shr_assign 8 [0x81] 1
   \<and> shr_assign 8 [0x81] 9 = Inr (clear 8)
   \<and> (\<exists>r. shr_assign 8 [0x81] 1 = Inr r \<and> val r = (val [0x81] mod 2 ^ 8) div 2 ^ nat 1)
   \<and> shr_assign 8 [0x81] 1 = Inr [0x40]
   \<and> (\<exists>r. shl_assign 8 [0x81] 1 = Inr r \<and> val r = (val [0x81] * 2 ^ nat 1) mod 2 ^ 8)
   \<and> shl_assign 8 [0x81] 1 = Inr [0x02]
   \<and> (\<exists>r. shr_assign 8 [0x01] (- 1) = Inr r \<and> val r = (val [0x01] * 2 ^ nat (- (- 1))) mod 2 ^ 8)
   \<and> shr_assign 8 [0x01] (- 1) = Inr [0x02]
   \<and> shl_assign 8 [0x81] 0 = Inr [0x81]"
proof -
  have w: "wf 8 [0x81]" "wf 8 [0x01]" by code_simp+
  have e: "shr_assign 8 [0x81] 1 = Inr [0x40]" "shl_assign 8 [0x81] 1 = Inr [0x02]"
    "shr_assign 8 [0x01] (- 1) = Inr [0x02]" by code_simp+
  have a: "shl_assign 8 [0x81] (- 1) = shr_assign 8 [0x81] (- (- 1))"
    using shift_semantics [OF w(1), of "- 1"] by simp
  have b: "shr_assign 8 [0x81] 9 = Inr (clear 8)"
    using shift_semantics [OF w(1), of 9] by simp
  have c: "\<exists>r. shr_assign 8 [0x81] 1 = Inr r \<and> val r = (val [0x81] mod 2 ^ 8) div 2 ^ nat 1"
    using shift_semantics [OF w(1), of 1] by auto
  have d: "\<exists>r. shl_assign 8 [0x81] 1 = Inr r \<and> val r = (val [0x81] * 2 ^ nat 1) mod 2 ^ 8"
    using shift_semantics [OF w(1), of 1] by auto
  have f: "\<exists>r. shr_assign 8 [0x01] (- 1) = Inr r \<and> val r = (val [0x01] * 2 ^ nat (- (- 1))) mod 2 ^ 8"
    using shift_semantics [OF w(2), of "- 1"] by auto
  have g: "shl_assign 8 [0x81] 0 = Inr [0x81]"
    using shift_semantics [OF w(1), of 0] by simp
  from a have a': "shl_assign 8 [0x81] (- 1) = shr_assign 8 [0x81] 1" by simp
  show ?thesis using w e a' b c d f g by blast
qed

section \<open>Long division\<close>

text \<open>
  C2. For values \<open>a\<close> and \<open>b\<close> of \<^verbatim>\<open>integer<nbits>\<close> (well-formed storage, invariant I1)
  with \<open>b\<close> not zero, \<^verbatim>\<open>idiv\<close> returns a pair \<open>(q, r)\<close> in either build mode with
  \<^verbatim>\<open>a == q * b + r\<close> under the type's own \<^verbatim>\<open>operator*\<close>, \<^verbatim>\<open>operator+\<close> and \<^verbatim>\<open>operator==\<close>; a
  nonzero \<open>r\<close> has the sign of \<open>a\<close>; \<open>r\<close> is the C remainder of the two's-complement
  values and \<open>q\<close> is their quotient truncated towards zero, taken modulo \<open>2 ^ nbits\<close>.
\<close>

theorem idiv_truncates:
  assumes "wf nbits a" "wf nbits b" "I1 nbits a" "I1 nbits b" "\<not> iszero b"
  shows "\<exists>q r p. idiv throw_arithmetic nbits a b = Inr (q, r)
           \<and> mul_assign nbits q b = Inr p \<and> eq a (add_assign nbits p r)
           \<and> (\<not> iszero r \<longrightarrow> sign nbits r = sign nbits a)
           \<and> sval nbits r = trunc_rem (sval nbits a) (sval nbits b)
           \<and> int (val q) = trunc_quot (sval nbits a) (sval nbits b) mod 2 ^ nbits"
proof -
  from assms(1) have n: "0 < nbits" by (rule wf_pos)
  have ia: "val a < 2 ^ nbits" and ib: "val b < 2 ^ nbits"
    using assms by (simp_all add: I1_val)
  have nz: "val b \<noteq> 0" using assms(5) by (simp add: iszero_val)
  define na where "na = bit (val a) (nbits - 1)"
  define nb where "nb = bit (val b) (nbits - 1)"
  define ua where "ua = (if na then 2 ^ nbits - val a else val a)"
  define ub where "ub = (if nb then 2 ^ nbits - val b else val b)"
  define sa :: int where "sa = (if na then - 1 else 1)"
  define sb :: int where "sb = (if nb then - 1 else 1)"
  define Q where "Q = ua div ub"
  define R where "R = ua mod ub"
  define M :: int where "M = 2 ^ nbits"
  have sq: "(if na \<noteq> nb then - 1 else 1) = sa * sb" by (simp add: sa_def sb_def)
  from idiv_val [OF assms(1,2) ia ib nz, of throw_arithmetic] obtain q r where
    qr: "idiv throw_arithmetic nbits a b = Inr (q, r)" "wf nbits q" "wf nbits r"
    and qv: "int (val q) = (sa * sb * int Q) mod M"
    and rv: "int (val r) = (sa * int R) mod M"
    unfolding na_def [symmetric] nb_def [symmetric] ua_def [symmetric] ub_def [symmetric]
      sq Q_def R_def sa_def [symmetric] M_def by blast
  have sval_a: "sval nbits a = sa * int ua" and sval_b: "sval nbits b = sb * int ub"
    using sval_magnitude [OF n ia] sval_magnitude [OF n ib]
    by (simp_all add: na_def nb_def ua_def ub_def sa_def sb_def)
  have ub_le: "ub \<le> 2 ^ (nbits - 1)" and ub_pos: "0 < ub"
    using abs_operand(2,3) [OF assms(2) ib] nz by (simp_all add: ub_def nb_def)
  have s2: "sa * sa = 1" "sb * sb = 1" by (simp_all add: sa_def sb_def)
  have div_id: "int ua = int Q * int ub + int R"
    unfolding Q_def R_def by (simp flip: of_nat_mult of_nat_add)
  \<comment> \<open>the identity \<open>a == q * b + r\<close>\<close>
  from mul_assign_val [OF qr(2) assms(2)] obtain p where
    p: "mul_assign nbits q b = Inr p" "wf nbits p" "val p = (val q * val b) mod 2 ^ nbits"
    by blast
  have am: "int (val a) mod M = (sa * int ua) mod M" and bm: "int (val b) mod M = (sb * int ub) mod M"
    using sval_cong [of nbits a] sval_cong [of nbits b]
    unfolding sval_a sval_b M_def by simp_all
  have qm: "int (val q) mod M = (sa * sb * int Q) mod M" unfolding qv by simp
  have rm: "int (val r) mod M = (sa * int R) mod M" unfolding rv by simp
  have pm: "int (val p) mod M = (int (val q) * int (val b)) mod M"
    by (simp add: p(3) M_def zmod_int)
  also have "\<dots> = (sa * sb * int Q * (sb * int ub)) mod M"
    using qm bm by (rule mod_mult_cong)
  finally have pm': "int (val p) mod M = (sa * sb * int Q * (sb * int ub)) mod M" .
  have "int (val (add_assign nbits p r)) = (int (val p) + int (val r)) mod M"
    using p(2) qr(3) by (simp add: ival_add_assign M_def)
  also have "\<dots> = (sa * sb * int Q * (sb * int ub) + sa * int R) mod M"
    using pm' rm by (rule mod_add_cong)
  also have "sa * sb * int Q * (sb * int ub) + sa * int R = sa * (sb * sb) * int Q * int ub + sa * int R"
    by (simp add: algebra_simps)
  also have "\<dots> = sa * int ua"
    unfolding s2 div_id by (simp add: algebra_simps)
  also have "(sa * int ua) mod M = int (val a)"
    using am int_lt_pow2 [OF ia] by (simp add: M_def)
  finally have "val (add_assign nbits p r) = val a" by simp
  then have id: "eq a (add_assign nbits p r)"
    using eq_val [OF assms(1), of "add_assign nbits p r"] p(2) qr(3) by simp
  \<comment> \<open>the remainder\<close>
  have Rlt: "R < ub" unfolding R_def using ub_pos by simp
  have rl: "int R < 2 ^ (nbits - 1)"
    using Rlt ub_le by (intro int_lt_pow2) simp
  have "- (2 ^ (nbits - 1)) \<le> sa * int R" "sa * int R < 2 ^ (nbits - 1)"
  proof -
    have z: "0 \<le> int R" "0 < (2 :: int) ^ (nbits - 1)" by simp_all
    show "- (2 ^ (nbits - 1)) \<le> sa * int R"
    proof (cases na)
      case True
      then have "sa * int R = - int R" by (simp add: sa_def)
      with rl z show ?thesis by linarith
    next
      case False
      then have "sa * int R = int R" by (simp add: sa_def)
      with rl z show ?thesis by linarith
    qed
    show "sa * int R < 2 ^ (nbits - 1)"
    proof (cases na)
      case True
      then have "sa * int R = - int R" by (simp add: sa_def)
      with rl z show ?thesis by linarith
    next
      case False
      then have "sa * int R = int R" by (simp add: sa_def)
      with rl z show ?thesis by linarith
    qed
  qed
  then have sval_r: "sval nbits r = sa * int R"
    using rv by (intro sval_unique [OF n]) (simp_all add: M_def)
  have tr: "trunc_rem (sval nbits a) (sval nbits b) = sa * int R"
  proof (cases "ua = 0")
    case True
    then show ?thesis by (simp add: trunc_rem_def sval_a R_def)
  next
    case False
    then have "sgn (sa * int ua) = sa" by (simp add: sa_def sgn_mult)
    moreover have "\<bar>sa * int ua\<bar> = int ua" "\<bar>sb * int ub\<bar> = int ub"
      by (simp_all add: sa_def sb_def abs_mult)
    ultimately show ?thesis
      by (simp add: trunc_rem_def sval_a sval_b R_def zmod_int)
  qed
  have tq: "trunc_quot (sval nbits a) (sval nbits b) = sa * sb * int Q"
  proof (cases "ua = 0")
    case True
    then show ?thesis by (simp add: trunc_quot_def sval_a Q_def)
  next
    case False
    then have "sgn (sa * int ua) = sa" by (simp add: sa_def sgn_mult)
    moreover have "sgn (sb * int ub) = sb" using ub_pos by (simp add: sb_def sgn_mult)
    moreover have "\<bar>sa * int ua\<bar> = int ua" "\<bar>sb * int ub\<bar> = int ub"
      by (simp_all add: sa_def sb_def abs_mult)
    ultimately show ?thesis
      by (simp add: trunc_quot_def sval_a sval_b Q_def zdiv_int)
  qed
  \<comment> \<open>the sign of a nonzero remainder\<close>
  have sg: "sign nbits r = sign nbits a" if "\<not> iszero r"
  proof -
    from that have "val r \<noteq> 0" by (simp add: iszero_val)
    with rv have "R \<noteq> 0" by (cases "R = 0") simp_all
    then have "sval nbits r < 0 \<longleftrightarrow> na" unfolding sval_r by (simp add: sa_def)
    moreover have "sval nbits r < 0 \<longleftrightarrow> bit (val r) (nbits - 1)"
      using sval_nonneg_iff [OF n, of r] by auto
    ultimately show ?thesis
      using qr(3) assms(1) by (simp add: sign_bit na_def)
  qed
  from qr(1) p(1) id sg sval_r tr qv tq show ?thesis by (simp add: M_def)
qed

theorem idiv_truncates_witness:
  "wf 8 [0xF9] \<and> wf 8 [2] \<and> I1 8 [0xF9] \<and> I1 8 [2] \<and> \<not> iszero [2]
   \<and> idiv True 8 [0xF9] [2] = Inr ([0xFD], [0xFF])
   \<and> mul_assign 8 [0xFD] [2] = Inr [0xFA] \<and> eq [0xF9] (add_assign 8 [0xFA] [0xFF])
   \<and> sign 8 [0xFF] = sign 8 [0xF9]
   \<and> sval 8 [0xF9] = - 7 \<and> sval 8 [0xFD] = - 3 \<and> sval 8 [0xFF] = - 1"
proof -
  have h: "wf 8 [0xF9]" "wf 8 [2]" "I1 8 [0xF9]" "I1 8 [2]" "\<not> iszero [2 :: u8]"
    by code_simp+
  have e: "idiv True 8 [0xF9] [2] = Inr ([0xFD], [0xFF])" "\<not> iszero [0xFF :: u8]"
    "sval 8 [0xF9] = - 7" "sval 8 [0xFD] = - 3" "sval 8 [0xFF] = - 1"
    by code_simp+
  from idiv_truncates [OF h, of True] e(1,2)
  have "mul_assign 8 [0xFD] [2] = Inr [0xFA] \<longrightarrow>
        eq [0xF9] (add_assign 8 [0xFA] [0xFF]) \<and> sign 8 [0xFF] = sign 8 [0xF9]"
    by auto
  moreover have "mul_assign 8 [0xFD] [2] = Inr [0xFA]" by code_simp
  ultimately show ?thesis using h e by blast
qed

section \<open>Decimal text round trip\<close>

lemma render_nonneg:
  assumes "wf nbits a" "val a < 2 ^ nbits" "sign nbits a = Inr False"
  shows "\<exists>ds. convert_to_decimal_string nbits a = Inr (rev (map (\<lambda>d. digit_char (unat d)) ds))
           \<and> normal ds \<and> magnitude ds = val a"
proof (cases "iszero a")
  case True
  then have "val a = 0" by (simp add: iszero_val)
  moreover have "convert_to_decimal_string nbits a
      = Inr (rev (map (\<lambda>d. digit_char (unat d)) [0 :: u8]))"
    using True by (simp add: convert_to_decimal_string_def digit_char_def)
  moreover have "normal [0]" by (simp add: normal_def)
  ultimately show ?thesis by (intro exI [of _ "[0]"]) simp
next
  case False
  from render_loop [OF assms(1)] obtain partial multiplier where
    l: "for_up 0 nbits (\<lambda>i (partial, multiplier).
                    bindE (at nbits a i) (\<lambda>bit.
                    Inr (if bit then add_decimal partial multiplier else partial,
                         add_decimal multiplier multiplier)))
          (\<lparr>digits = [0], dsign = False\<rparr>, \<lparr>digits = [1], dsign = False\<rparr>)
        = Inr (partial, multiplier)"
    and np: "normal (digits partial)"
    and mp: "magnitude (digits partial) = val a mod 2 ^ nbits"
    by blast
  have all: "list_all (\<lambda>d. d < 10) (rev (digits partial))"
    using np by (simp add: normal_def)
  have "convert_to_decimal_string nbits a
      = Inr (map (\<lambda>d. digit_char (unat d)) (rev (digits partial)))"
    using False assms(3) l by (simp add: convert_to_decimal_string_def digits_string [OF all])
  with np mp assms(2) show ?thesis
    by (intro exI [of _ "digits partial"]) (simp add: rev_map)
qed

lemma render_negative:
  assumes "wf nbits a" "sign nbits a = Inr True"
  shows "\<exists>s. convert_to_decimal_string nbits a = Inr (CHR ''-'' # s)"
proof -
  from assms have "bit (val a) (nbits - 1)" by (simp add: sign_bit)
  then have "val a \<noteq> 0" by (cases "val a = 0") simp_all
  then have nz: "\<not> iszero a" by (simp add: iszero_val)
  from twos_complement_val [OF assms(1)] obtain number where
    t: "twos_complement nbits a = Inr number" "wf nbits number" by blast
  from render_loop [OF t(2)] obtain partial multiplier where
    "for_up 0 nbits (\<lambda>i (partial, multiplier).
                    bindE (at nbits number i) (\<lambda>bit.
                    Inr (if bit then add_decimal partial multiplier else partial,
                         add_decimal multiplier multiplier)))
          (\<lparr>digits = [0], dsign = False\<rparr>, \<lparr>digits = [1], dsign = False\<rparr>)
        = Inr (partial, multiplier)"
    by blast
  with nz assms(2) t(1) show ?thesis
    by (simp add: convert_to_decimal_string_def)
qed

lemma parse_rendered:
  assumes "0 < nbits" "normal ds"
  shows "\<exists>v. parse nbits (rev (map (\<lambda>d. digit_char (unat d)) ds)) = Inr (True, v)
           \<and> wf nbits v \<and> val v = magnitude ds mod 2 ^ nbits"
proof -
  define s where "s = rev (map (\<lambda>d. digit_char (unat d)) ds)"
  note rx = rendered_digits_regex [OF assms(2), folded s_def]
  from integer_of_digit [OF assms(1), of 1] obtain one where
    one: "integer_of nbits 1 = Inr one" "wf nbits one" "val one = 1 mod 2 ^ nbits" by auto
  have all: "list_all (\<lambda>d. d < 10) ds" using assms(2) by (simp add: normal_def)
  from decimal_loop_val [OF assms(1) wf_clear [OF assms(1)] _ one(2) all] obtain v sc where
    v: "decimal_loop nbits (map (\<lambda>d. digit_char (unat d)) ds) (clear nbits, one) = Inr (v, sc)"
    "wf nbits v" "val v = (val (clear nbits) + val one * magnitude ds) mod 2 ^ nbits"
    by auto
  have "val v = magnitude ds mod 2 ^ nbits"
    unfolding v(3) one(3) by (simp add: mod_simps)
  moreover have "parse nbits s = Inr (True, v)"
    using rx v(1) one(1) by (simp add: parse_def s_def)
  ultimately show ?thesis using v(2) unfolding s_def by blast
qed

text \<open>
  C1, as far as it holds. The claim of a round trip for every value fails at the negative
  ones: \<open>-1\<close> in \<^verbatim>\<open>integer<8>\<close> is rendered as \<^verbatim>\<open>"-1"\<close>, which matches none of the three
  patterns of \<^verbatim>\<open>parse\<close>, so \<^verbatim>\<open>parse\<close> returns \<^verbatim>\<open>false\<close> and the target is zero.
\<close>

theorem round_trip_fails_for_negative:
  "wf 8 [0xFF] \<and> I1 8 [0xFF]
   \<and> convert_to_decimal_string 8 [0xFF] = Inr ''-1''
   \<and> parse 8 ''-1'' = Inr (False, [0]) \<and> \<not> eq [0] [0xFF]"
  by code_simp

text \<open>
  C1 as amended. For every value \<open>a\<close> of \<^verbatim>\<open>integer<nbits>\<close> with the sign bit clear, \<^verbatim>\<open>parse\<close>
  applied to the string rendered from \<open>a\<close> returns \<^verbatim>\<open>true\<close> and the value \<open>a\<close>. For every
  value with the sign bit set the rendered string begins with \<^verbatim>\<open>-\<close>, and \<^verbatim>\<open>parse\<close> returns
  \<^verbatim>\<open>false\<close> on it with the target cleared.
\<close>

theorem decimal_round_trip:
  assumes "wf nbits a" "I1 nbits a"
  shows "(sign nbits a = Inr False \<longrightarrow>
           (\<exists>s. convert_to_decimal_string nbits a = Inr s \<and> parse nbits s = Inr (True, a)))
       \<and> (sign nbits a = Inr True \<longrightarrow>
           (\<exists>s. convert_to_decimal_string nbits a = Inr (CHR ''-'' # s)
                \<and> parse nbits (CHR ''-'' # s) = Inr (False, clear nbits)))"
proof (intro conjI impI)
  assume sg: "sign nbits a = Inr False"
  from assms have n: "0 < nbits" and ia: "val a < 2 ^ nbits" by (simp_all add: wf_pos I1_val)
  from render_nonneg [OF assms(1) ia sg] obtain ds where
    ds: "convert_to_decimal_string nbits a = Inr (rev (map (\<lambda>d. digit_char (unat d)) ds))"
    "normal ds" "magnitude ds = val a" by blast
  from parse_rendered [OF n ds(2)] obtain v where
    v: "parse nbits (rev (map (\<lambda>d. digit_char (unat d)) ds)) = Inr (True, v)"
    "wf nbits v" "val v = magnitude ds mod 2 ^ nbits" by blast
  have "val v = val a" using v(3) ds(3) ia by simp
  then have "v = a" using v(2) assms(1) by (intro val_inj) (simp_all add: wf_def)
  with ds(1) v(1) show "\<exists>s. convert_to_decimal_string nbits a = Inr s
      \<and> parse nbits s = Inr (True, a)" by auto
next
  assume sg: "sign nbits a = Inr True"
  from render_negative [OF assms(1) sg] obtain s where
    s: "convert_to_decimal_string nbits a = Inr (CHR ''-'' # s)" by blast
  have "parse nbits (CHR ''-'' # s) = Inr (False, clear nbits)"
    using minus_not_number [of s] by (simp add: parse_def)
  with s show "\<exists>s. convert_to_decimal_string nbits a = Inr (CHR ''-'' # s)
      \<and> parse nbits (CHR ''-'' # s) = Inr (False, clear nbits)" by blast
qed

theorem decimal_round_trip_witness:
  "wf 8 [0x7F] \<and> I1 8 [0x7F] \<and> sign 8 [0x7F] = Inr False
   \<and> convert_to_decimal_string 8 [0x7F] = Inr ''127'' \<and> parse 8 ''127'' = Inr (True, [0x7F])
   \<and> wf 8 [0x80] \<and> I1 8 [0x80] \<and> sign 8 [0x80] = Inr True
   \<and> convert_to_decimal_string 8 [0x80] = Inr ''-128''
   \<and> parse 8 ''-128'' = Inr (False, clear 8)"
proof -
  have h: "wf 8 [0x7F]" "I1 8 [0x7F]" "sign 8 [0x7F] = Inr False"
    "convert_to_decimal_string 8 [0x7F] = Inr ''127''"
    by code_simp+
  have g: "wf 8 [0x80]" "I1 8 [0x80]" "sign 8 [0x80] = Inr True"
    "convert_to_decimal_string 8 [0x80] = Inr ''-128''"
    by code_simp+
  from decimal_round_trip [OF h(1,2)] h(3,4)
  have p: "parse 8 ''127'' = Inr (True, [0x7F])" by auto
  from decimal_round_trip [OF g(1,2)] g(3,4)
  have q: "parse 8 ''-128'' = Inr (False, clear 8)" by auto
  from h g p q show ?thesis by blast
qed

end
